theory Spec2Isabelle
  imports Complex_Main "HOL-Library.AList"
begin

section \<open>Values, records and errors\<close>

text \<open>
  The queue engine of \<^verbatim>\<open>sqliteack_queue.py\<close> stores Python dictionaries in SQLite
  tables. A payload value is \<^verbatim>\<open>None\<close>, an int, a float, a string, a list or a
  dictionary; a dictionary keeps insertion order, so it is an association list whose
  assignment is \<open>AList.update\<close> (overwrite in place, or append).

  An int is a Python int (a bool is not told apart from the int it equals), a float is
  a float that is a number: the infinities and NaN have no counterpart here.

  The store is modelled relationally, one connection's view of it, and a write is
  visible as soon as it is executed. \<^verbatim>\<open>time.time()\<close> is a parameter of every
  operation. SQL text is not parsed and a value is stored as it is bound. SQLite does
  more: it compares names without regard to case and refuses some of them, and it
  converts a value that is not of the declared type of its column. The model is
  therefore the code's store only where names are plain (\<open>plain_name\<close> below) and
  every value is of the type of its column (\<open>fits\<close> below); the theorems about stored
  values say so in their hypotheses.
\<close>

datatype pyval =
    PNone
  | PInt int
  | PFloat real
  | PStr string
  | PList "pyval list"
  | PDict "(string \<times> pyval) list"

type_synonym pydict = "(string \<times> pyval) list"

datatype error =
    ValueError
  | KeyError
  | AssertionError
  | IndexError
  | ZeroDivisionError
  | StoreError
  | OverflowError
  | AttributeError
  | Blocked
  | WorkerError

type_synonym 'a res = "error + 'a"

subsection \<open>AckStatus\<close>

definition inited :: int where "inited = 0"
definition ready :: int where "ready = 1"
definition unack :: int where "unack = 2"
definition acked :: int where "acked = 5"
definition ack_failed :: int where "ack_failed = 9"
definition ack_done :: int where "ack_done = 17"

section \<open>The record store\<close>

datatype coltype = TEXT | REAL | INTEGER

record row =
  rid :: int
  rtimestamp :: real
  rstatus :: int
  rvals :: "pyval list"

text \<open>
  A table: its user columns in declaration order (the reserved \<^verbatim>\<open>_id\<close>,
  \<^verbatim>\<open>timestamp\<close>, \<^verbatim>\<open>status\<close> are the first three fields of a row), the column of
  its UNIQUE constraint if it was created with one, its rows in rowid order, and the
  AUTOINCREMENT sequence (the largest key handed out so far).
\<close>

record table =
  tcols :: "(string \<times> coltype) list"
  tunique :: "string option"
  trows :: "row list"
  tseq :: int

definition reserved :: "string list" where
  "reserved = [''_id'', ''timestamp'', ''status'']"

definition table_names :: "table \<Rightarrow> string list" where
  "table_names t = reserved @ map fst (tcols t)"

text \<open>\<^verbatim>\<open>CREATE TABLE IF NOT EXISTS\<close>: an existing table is left as it is.\<close>

definition sql_create :: "string option \<Rightarrow> table option \<Rightarrow> table" where
  "sql_create unique_column old =
     (case old of
        Some t \<Rightarrow> t
      | None \<Rightarrow>
          (case unique_column of
             None \<Rightarrow> \<lparr>tcols = [], tunique = None, trows = [], tseq = 0\<rparr>
           | Some u \<Rightarrow> \<lparr>tcols = [(u, TEXT)], tunique = Some u, trows = [], tseq = 0\<rparr>))"

text \<open>
  \<^verbatim>\<open>ALTER TABLE t ADD name type\<close>: fails on a name the table has; old rows read null.
  Names are compared as they are written and every other name is taken. SQLite does
  so for plain names (\<open>plain_name\<close> below); it compares names without regard to case
  and refuses its keywords.
\<close>

definition sql_create_column :: "string \<Rightarrow> coltype \<Rightarrow> table \<Rightarrow> table res" where
  "sql_create_column name ty t =
     (if name \<in> set (table_names t) then Inl StoreError
      else Inr (t\<lparr>tcols := tcols t @ [(name, ty)],
                  trows := map (\<lambda>r. r\<lparr>rvals := rvals r @ [PNone]\<rparr>) (trows t)\<rparr>))"

text \<open>The value of a row in a named column; \<open>None\<close> when the table has no such column.\<close>

fun lookup_col :: "string list \<Rightarrow> pyval list \<Rightarrow> string \<Rightarrow> pyval option" where
  "lookup_col (c # cs) (v # vs) name = (if c = name then Some v else lookup_col cs vs name)"
| "lookup_col _ _ name = None"

definition cell :: "table \<Rightarrow> row \<Rightarrow> string \<Rightarrow> pyval option" where
  "cell t r name =
     (if name = ''_id'' then Some (PInt (rid r))
      else if name = ''timestamp'' then Some (PFloat (rtimestamp r))
      else if name = ''status'' then Some (PInt (rstatus r))
      else lookup_col (map fst (tcols t)) (rvals r) name)"

definition int64 :: "int \<Rightarrow> bool" where
  "int64 i = (- (2 ^ 63) \<le> i \<and> i < 2 ^ 63)"

text \<open>
  The sqlite3 module binds \<^verbatim>\<open>None\<close>, floats, strings and the ints of 64 bits. It
  raises \<^verbatim>\<open>OverflowError\<close> on a larger int and an error of its own on a list or a
  dictionary; the parameters are bound in order, so the first that cannot be bound
  decides.
\<close>

fun bindable :: "pyval \<Rightarrow> bool" where
  "bindable (PList _) = False"
| "bindable (PDict _) = False"
| "bindable (PInt i) = int64 i"
| "bindable _ = True"

fun bind_error :: "pyval list \<Rightarrow> error option" where
  "bind_error [] = None"
| "bind_error (v # vs) =
     (if bindable v then bind_error vs
      else Some (case v of PInt i \<Rightarrow> OverflowError | _ \<Rightarrow> StoreError))"

text \<open>
  \<^verbatim>\<open>INSERT OR IGNORE INTO t (timestamp, status, cols) VALUES (?, 0, ?, ...) RETURNING _id\<close>.
  A row whose value in the UNIQUE column is already there is ignored (SQL nulls never
  collide); otherwise the row gets the next key of the sequence. An ignored row uses up
  its key: AUTOINCREMENT has advanced the sequence before the constraint is checked.
  Values are compared and stored as they are bound. SQLite does so for a value of the
  type of its column (\<open>fits\<close> below); a number bound to a \<open>TEXT\<close> column, as the UNIQUE
  column is, it stores as text.
\<close>

definition unique_conflict :: "table \<Rightarrow> string list \<Rightarrow> pyval list \<Rightarrow> bool" where
  "unique_conflict t cols vals =
     (case tunique t of
        None \<Rightarrow> False
      | Some u \<Rightarrow>
          (case lookup_col cols vals u of
             None \<Rightarrow> False
           | Some v \<Rightarrow> v \<noteq> PNone \<and> (\<exists>r \<in> set (trows t). cell t r u = Some v)))"

definition sql_insert ::
  "real \<Rightarrow> string list \<Rightarrow> pyval list \<Rightarrow> table \<Rightarrow> (table \<times> int option) res" where
  "sql_insert ts cols vals t =
     (if cols = [] \<or> \<not> set cols \<subseteq> set (map fst (tcols t)) then Inl StoreError
      else
        (case bind_error vals of
           Some e \<Rightarrow> Inl e
         | None \<Rightarrow>
             if unique_conflict t cols vals then Inr (t\<lparr>tseq := tseq t + 1\<rparr>, None)
             else
               let k = tseq t + 1;
                   r = \<lparr>rid = k, rtimestamp = ts, rstatus = inited,
                        rvals = map (\<lambda>c. case lookup_col cols vals c of
                                           None \<Rightarrow> PNone | Some v \<Rightarrow> v)
                                  (map fst (tcols t))\<rparr>
               in Inr (t\<lparr>trows := trows t @ [r], tseq := k\<rparr>, Some k)))"

text \<open>\<^verbatim>\<open>UPDATE t SET status = s WHERE _id IN (keys) RETURNING *\<close>, with the number of rows returned.\<close>

definition sql_mark_ack_update :: "int list \<Rightarrow> int \<Rightarrow> table \<Rightarrow> table \<times> nat" where
  "sql_mark_ack_update keys st t =
     (t\<lparr>trows := map (\<lambda>r. if rid r \<in> set keys then r\<lparr>rstatus := st\<rparr> else r) (trows t)\<rparr>,
      length (filter (\<lambda>r. rid r \<in> set keys) (trows t)))"

definition sql_delete :: "int list \<Rightarrow> table \<Rightarrow> table" where
  "sql_delete keys t = t\<lparr>trows := filter (\<lambda>r. rid r \<notin> set keys) (trows t)\<rparr>"

text \<open>\<^verbatim>\<open>UPDATE t SET status = 1 WHERE status = 2 AND timestamp < cutoff\<close>.\<close>

definition sql_timeout :: "real \<Rightarrow> table \<Rightarrow> table" where
  "sql_timeout time_cutoff t =
     t\<lparr>trows := map (\<lambda>r. if rstatus r = unack \<and> rtimestamp r < time_cutoff
                          then r\<lparr>rstatus := ready\<rparr> else r) (trows t)\<rparr>"

definition sql_count :: "(row \<Rightarrow> bool) \<Rightarrow> table \<Rightarrow> nat" where
  "sql_count p t = length (filter p (trows t))"

text \<open>
  \<^verbatim>\<open>SELECT _id, timestamp, status, cols FROM t [WHERE status < 2] ORDER BY _id LIMIT n OFFSET k\<close>:
  fails on a column the table does not have.
\<close>

definition sql_select :: "string list \<Rightarrow> bool \<Rightarrow> nat \<Rightarrow> nat \<Rightarrow> table \<Rightarrow> (int \<times> pyval list) list res" where
  "sql_select cols read_all n offset t =
     (if \<not> set cols \<subseteq> set (table_names t) then Inl StoreError
      else Inr (map (\<lambda>r. (rid r, map (\<lambda>c. the (cell t r c)) cols))
                  (take n (drop offset
                     (sort_key rid (filter (\<lambda>r. read_all \<or> rstatus r < unack) (trows t)))))))"

subsection \<open>Where the model is the store\<close>

text \<open>
  The words SQLite's grammar keeps for itself, and the names it keeps for the row key.
  A plain name is a short identifier in lower case that is none of them and does not
  begin with \<^verbatim>\<open>sqlite_\<close>: SQLite takes it as a column or table name wherever the code
  writes it into a statement, and two plain names are the same for SQLite only if they
  are equal.
\<close>

definition sql_keywords :: "string list" where
  "sql_keywords =
   [''abort'', ''action'', ''add'', ''after'', ''all'', ''alter'', ''always'', ''analyze'',
    ''and'', ''as'', ''asc'', ''attach'', ''autoincrement'', ''before'', ''begin'',
    ''between'', ''by'', ''cascade'', ''case'', ''cast'', ''check'', ''collate'',
    ''column'', ''commit'', ''conflict'', ''constraint'', ''create'', ''cross'',
    ''current'', ''current_date'', ''current_time'', ''current_timestamp'', ''database'',
    ''default'', ''deferrable'', ''deferred'', ''delete'', ''desc'', ''detach'',
    ''distinct'', ''do'', ''drop'', ''each'', ''else'', ''end'', ''escape'', ''except'',
    ''exclude'', ''exclusive'', ''exists'', ''explain'', ''fail'', ''filter'', ''first'',
    ''following'', ''for'', ''foreign'', ''from'', ''full'', ''generated'', ''glob'',
    ''group'', ''groups'', ''having'', ''if'', ''ignore'', ''immediate'', ''in'',
    ''index'', ''indexed'', ''initially'', ''inner'', ''insert'', ''instead'',
    ''intersect'', ''into'', ''is'', ''isnull'', ''join'', ''key'', ''last'', ''left'',
    ''like'', ''limit'', ''match'', ''materialized'', ''natural'', ''no'', ''not'',
    ''nothing'', ''notnull'', ''null'', ''nulls'', ''of'', ''offset'', ''on'', ''or'',
    ''order'', ''others'', ''outer'', ''over'', ''partition'', ''plan'', ''pragma'',
    ''preceding'', ''primary'', ''query'', ''raise'', ''range'', ''recursive'',
    ''references'', ''regexp'', ''reindex'', ''release'', ''rename'', ''replace'',
    ''restrict'', ''returning'', ''right'', ''rollback'', ''row'', ''rows'', ''savepoint'',
    ''select'', ''set'', ''table'', ''temp'', ''temporary'', ''then'', ''ties'', ''to'',
    ''transaction'', ''trigger'', ''unbounded'', ''union'', ''unique'', ''update'',
    ''using'', ''vacuum'', ''values'', ''view'', ''virtual'', ''when'', ''where'',
    ''window'', ''with'', ''without'', ''within'', ''rowid'', ''oid'', ''true'', ''false'',
    ''stored'', ''strict'', ''any'']"

definition plain_name :: "string \<Rightarrow> bool" where
  "plain_name n =
     (n \<noteq> [] \<and> length n \<le> 40 \<and> hd n \<in> set ''abcdefghijklmnopqrstuvwxyz'' \<and>
      set n \<subseteq> set ''abcdefghijklmnopqrstuvwxyz0123456789_'' \<and> n \<notin> set sql_keywords \<and>
      take 7 n \<noteq> ''sqlite_'')"

text \<open>
  A value that a column of the declared type stores as it is bound: a null anywhere, a
  string in a \<open>TEXT\<close> column, an int of 64 bits in an \<open>INTEGER\<close> column, a float in a
  \<open>REAL\<close> column. Any other value SQLite may convert.
\<close>

fun fits :: "coltype \<Rightarrow> pyval \<Rightarrow> bool" where
  "fits ty PNone = True"
| "fits TEXT (PStr s) = True"
| "fits INTEGER (PInt i) = int64 i"
| "fits REAL (PFloat x) = True"
| "fits ty v = False"

text \<open>
  The declared type of a column: \<^verbatim>\<open>_id INTEGER\<close>, \<^verbatim>\<open>timestamp FLOAT\<close>,
  \<^verbatim>\<open>status INTEGER\<close>, and the inferred type of a user column.
\<close>

definition col_type :: "table \<Rightarrow> string \<Rightarrow> coltype option" where
  "col_type t name =
     (if name = ''_id'' then Some INTEGER
      else if name = ''timestamp'' then Some REAL
      else if name = ''status'' then Some INTEGER
      else map_of (tcols t) name)"

text \<open>
  A table as SQLite can hold it and the model reads it: at most 500 user columns with
  plain names, distinct and none of them reserved, every stored value of the type of
  its column, keys and statuses of 64 bits, the rows in the order of their keys, and
  no key above the AUTOINCREMENT sequence.
\<close>

definition sound_table :: "table \<Rightarrow> bool" where
  "sound_table t =
     (list_all plain_name (map fst (tcols t)) \<and> distinct (map fst (tcols t)) \<and>
      set (map fst (tcols t)) \<inter> set reserved = {} \<and> length (tcols t) \<le> 500 \<and>
      list_all (\<lambda>r. list_all2 fits (map snd (tcols t)) (rvals r) \<and>
                     int64 (rid r) \<and> int64 (rstatus r) \<and> rid r \<le> tseq t) (trows t) \<and>
      sorted_wrt (<) (map rid (trows t)) \<and> int64 (tseq t))"

section \<open>SQLiteAckQueue\<close>

text \<open>
  The attributes of a queue object; \<open>con_open\<close> is \<^verbatim>\<open>self._con is not None\<close>. The
  object and the table it works on make the state of an operation.
\<close>

record ackq =
  timeout :: real
  max_size :: "nat option"
  delete_on_ack :: bool
  columns :: "string list"
  con_open :: bool
  last_timeout_application :: real
  count_cache :: "(real \<times> nat) option"

type_synonym aq = "ackq \<times> table"

text \<open>
  \<^verbatim>\<open>apply_timeout\<close> reads the clock three times: for the rate limit, for the cutoff and
  for the time of this sweep.
\<close>

definition apply_timeout :: "real \<Rightarrow> real \<Rightarrow> real \<Rightarrow> aq \<Rightarrow> aq" where
  "apply_timeout t1 t2 t3 s =
     (case s of (q, t) \<Rightarrow>
        if \<not> con_open q then s
        else if t1 - last_timeout_application q < timeout q then s
        else (q\<lparr>last_timeout_application := t3\<rparr>, sql_timeout (t2 - timeout q) t))"

text \<open>The property \<^verbatim>\<open>con\<close>: sweep, then open the connection if there is none.\<close>

definition con :: "real \<Rightarrow> aq \<Rightarrow> aq" where
  "con now s = (case apply_timeout now now now s of (q, t) \<Rightarrow> (q\<lparr>con_open := True\<rparr>, t))"

definition updates :: "real \<Rightarrow> int list \<Rightarrow> int \<Rightarrow> aq \<Rightarrow> aq \<times> unit res" where
  "updates now keys st s =
     (case con now s of (q, t) \<Rightarrow>
        (case sql_mark_ack_update keys st t of (t', n) \<Rightarrow>
           if n \<noteq> length keys then ((q, t'), Inl KeyError)
           else (con now (q, t'), Inr ())))"

definition delete :: "real \<Rightarrow> int list \<Rightarrow> aq \<Rightarrow> aq" where
  "delete now keys s =
     (case con now s of (q, t) \<Rightarrow> con now (q, sql_delete keys t))"

definition acks :: "real \<Rightarrow> int list \<Rightarrow> int \<Rightarrow> aq \<Rightarrow> aq \<times> unit res" where
  "acks now keys st s =
     (case updates now keys st s of
        (s', Inl e) \<Rightarrow> (s', Inl e)
      | (s', Inr u) \<Rightarrow>
          if delete_on_ack (fst s') then (delete now keys s', Inr ()) else (s', Inr ()))"

subsection \<open>Counters\<close>

definition free :: "real \<Rightarrow> aq \<Rightarrow> aq \<times> nat" where
  "free now s =
     (case con now s of (q, t) \<Rightarrow> (con now (q, t), sql_count (\<lambda>r. rstatus r < unack) t))"

text \<open>\<^verbatim>\<open>done\<close> (a keyword here, hence the suffix).\<close>

definition done_count :: "real \<Rightarrow> aq \<Rightarrow> aq \<times> nat" where
  "done_count now s =
     (case con now s of (q, t) \<Rightarrow> (con now (q, t), sql_count (\<lambda>r. rstatus r > unack) t))"

definition active :: "real \<Rightarrow> aq \<Rightarrow> aq \<times> nat" where
  "active now s =
     (case con now s of (q, t) \<Rightarrow>
        (con now (q, t), sql_count (\<lambda>r. rstatus r \<ge> unack \<and> rstatus r < ack_failed) t))"

definition count :: "real \<Rightarrow> aq \<Rightarrow> aq \<times> nat" where
  "count now s = (case con now s of (q, t) \<Rightarrow> ((q, t), sql_count (\<lambda>r. True) t))"

subsection \<open>Backpressure\<close>

text \<open>
  \<^verbatim>\<open>approx_count\<close> is \<^verbatim>\<open>_count\<close> behind a cache that lives ten seconds. The cache
  is kept with the queue object here; \<^verbatim>\<open>ttl_cache(maxsize=1)\<close> on the method is one
  entry for all queue objects of a process, so this is the code with one bounded queue.
  \<^verbatim>\<open>max_size_block\<close> sleeps while the cached count is above \<open>max_size\<close>; the wait is
  not followed here: an operation that would have to wait ends as \<open>Blocked\<close>.
\<close>

definition approx_count :: "real \<Rightarrow> aq \<Rightarrow> aq \<times> nat" where
  "approx_count now s =
     (let refresh = (case count now s of ((q, t), n) \<Rightarrow> ((q\<lparr>count_cache := Some (now, n)\<rparr>, t), n))
      in case count_cache (fst s) of
           None \<Rightarrow> refresh
         | Some (t0, n) \<Rightarrow> if now < t0 + 10 then (s, n) else refresh)"

definition max_size_block :: "real \<Rightarrow> aq \<Rightarrow> aq \<times> unit res" where
  "max_size_block now s =
     (case max_size (fst s) of
        None \<Rightarrow> (s, Inr ())
      | Some m \<Rightarrow>
          if m = 0 then (s, Inr ())
          else (case approx_count now s of (s', n) \<Rightarrow>
                  if n > m then (s', Inl Blocked) else (s', Inr ())))"

subsection \<open>Array flattening\<close>

text \<open>\<^verbatim>\<open>f'{idim:04d}'\<close>: the decimal digits of the index, padded with zeros to four.\<close>

definition digit_char :: "nat \<Rightarrow> char" where
  "digit_char d = char_of (48 + d)"

fun digits :: "nat \<Rightarrow> string" where
  "digits n = (if n < 10 then [digit_char n] else digits (n div 10) @ [digit_char (n mod 10)])"

declare digits.simps [simp del]

definition fmt04 :: "nat \<Rightarrow> string" where
  "fmt04 n = replicate (4 - length (digits n)) (CHR ''0'') @ digits n"

definition dim_name :: "string \<Rightarrow> nat \<Rightarrow> string" where
  "dim_name key idim = key @ ''_dim_'' @ fmt04 idim"

fun flatten_list :: "string \<Rightarrow> pyval list \<Rightarrow> nat \<Rightarrow> pydict \<Rightarrow> pydict" where
  "flatten_list key [] idim new_item = new_item"
| "flatten_list key (element # es) idim new_item =
     flatten_list key es (Suc idim) (AList.update (dim_name key idim) element new_item)"

fun flatten_item :: "pydict \<Rightarrow> pydict \<Rightarrow> pydict" where
  "flatten_item [] new_item = new_item"
| "flatten_item ((key, PList xs) # rest) new_item =
     flatten_item rest (flatten_list key xs 0 new_item)"
| "flatten_item ((key, v) # rest) new_item =
     flatten_item rest (AList.update key v new_item)"

definition flatten_array_columns :: "pydict list \<Rightarrow> pydict list" where
  "flatten_array_columns items = map (\<lambda>item. flatten_item item []) items"

text \<open>\<^verbatim>\<open>'_dim_' in key\<close>, \<^verbatim>\<open>key.split('_')\<close> and \<^verbatim>\<open>int(token)\<close>.\<close>

fun starts_with :: "string \<Rightarrow> string \<Rightarrow> bool" where
  "starts_with s [] = True"
| "starts_with [] (p # ps) = False"
| "starts_with (c # cs) (p # ps) = (c = p \<and> starts_with cs ps)"

fun contains :: "string \<Rightarrow> string \<Rightarrow> bool" where
  "contains [] p = (p = [])"
| "contains (c # cs) p = (starts_with (c # cs) p \<or> contains cs p)"

fun split_us :: "string \<Rightarrow> string list" where
  "split_us [] = [[]]"
| "split_us (c # cs) =
     (if c = CHR ''_'' then [] # split_us cs
      else (case split_us cs of [] \<Rightarrow> [[c]] | w # ws \<Rightarrow> (c # w) # ws))"

definition is_digit :: "char \<Rightarrow> bool" where
  "is_digit c = (c \<in> set ''0123456789'')"

definition digit_val :: "char \<Rightarrow> nat" where
  "digit_val c = of_char c - 48"

definition nat_of_digits :: "string \<Rightarrow> nat" where
  "nat_of_digits ds = foldl (\<lambda>a c. 10 * a + digit_val c) 0 ds"

text \<open>
  \<^verbatim>\<open>int\<close> on a string: an optional sign and ASCII digits (the surrounding blanks Python
  also accepts are left out; an underscore cannot occur in a token of the split).
\<close>

definition digit_string :: "string \<Rightarrow> bool" where
  "digit_string ds = (ds \<noteq> [] \<and> list_all is_digit ds)"

fun py_int :: "string \<Rightarrow> int option" where
  "py_int [] = None"
| "py_int (c # cs) =
     (if c = CHR ''-'' then (if digit_string cs then Some (- int (nat_of_digits cs)) else None)
      else if c = CHR ''+'' then (if digit_string cs then Some (int (nat_of_digits cs)) else None)
      else if digit_string (c # cs) then Some (int (nat_of_digits (c # cs))) else None)"

text \<open>
  \<^verbatim>\<open>DynamicList.__setitem__\<close> with an int index: grow with zeros up to the index, then
  the list assignment (a negative index counts from the end).
\<close>

definition expand :: "pyval list \<Rightarrow> int \<Rightarrow> pyval list" where
  "expand xs idx =
     (if idx + 1 > int (length xs) then xs @ replicate (nat (idx + 1) - length xs) (PInt 0)
      else xs)"

definition setitem :: "pyval list \<Rightarrow> int \<Rightarrow> pyval \<Rightarrow> pyval list res" where
  "setitem xs idx val =
     (let ys = expand xs idx in
      if 0 \<le> idx then Inr (ys[nat idx := val])
      else if - int (length ys) \<le> idx then Inr (ys[nat (int (length ys) + idx) := val])
      else Inl IndexError)"

fun unflatten_fields ::
  "pydict \<Rightarrow> pydict \<Rightarrow> (string \<times> pyval list) list \<Rightarrow> (pydict \<times> (string \<times> pyval list) list) res" where
  "unflatten_fields [] new_item arrays = Inr (new_item, arrays)"
| "unflatten_fields ((key, val) # rest) new_item arrays =
     (if contains key ''_dim_'' then
        (case split_us key of
           column_name # t1 # t2 # ts \<Rightarrow>
             (case py_int t2 of
                None \<Rightarrow> Inl ValueError
              | Some column_idim \<Rightarrow>
                  (case setitem (case map_of arrays column_name of None \<Rightarrow> [] | Some a \<Rightarrow> a)
                          column_idim val of
                     Inl e \<Rightarrow> Inl e
                   | Inr arr \<Rightarrow> unflatten_fields rest new_item (AList.update column_name arr arrays)))
         | _ \<Rightarrow> Inl IndexError)
      else unflatten_fields rest (AList.update key val new_item) arrays)"

fun unflatten_arrays :: "(string \<times> pyval list) list \<Rightarrow> pydict \<Rightarrow> pydict res" where
  "unflatten_arrays [] new_item = Inr new_item"
| "unflatten_arrays ((column, arr) # rest) new_item =
     (if PNone \<in> set arr then Inl AssertionError
      else unflatten_arrays rest (AList.update column (PList arr) new_item))"

definition unflatten_item :: "pydict \<Rightarrow> pydict res" where
  "unflatten_item item =
     (case unflatten_fields item [] [] of
        Inl e \<Rightarrow> Inl e
      | Inr (new_item, arrays) \<Rightarrow> unflatten_arrays arrays new_item)"

fun unflatten_array_columns :: "pydict list \<Rightarrow> pydict list res" where
  "unflatten_array_columns [] = Inr []"
| "unflatten_array_columns (item # items) =
     (case unflatten_item item of
        Inl e \<Rightarrow> Inl e
      | Inr new_item \<Rightarrow>
          (case unflatten_array_columns items of
             Inl e \<Rightarrow> Inl e
           | Inr new_items \<Rightarrow> Inr (new_item # new_items)))"

subsection \<open>Schema growth\<close>

fun column_type :: "pyval \<Rightarrow> coltype res" where
  "column_type (PStr _) = Inr TEXT"
| "column_type (PFloat _) = Inr REAL"
| "column_type (PInt _) = Inr INTEGER"
| "column_type (PDict _) = Inl ValueError"
| "column_type _ = Inr TEXT"

definition create_column :: "real \<Rightarrow> string \<Rightarrow> pyval \<Rightarrow> aq \<Rightarrow> aq \<times> unit res" where
  "create_column now name val s =
     (case column_type val of
        Inl e \<Rightarrow> (s, Inl e)
      | Inr v_type \<Rightarrow>
          (case con now s of (q, t) \<Rightarrow>
             (case sql_create_column name v_type t of
                Inl e \<Rightarrow> ((q, t), Inl e)
              | Inr t' \<Rightarrow> ((q\<lparr>columns := columns q @ [name]\<rparr>, t'), Inr ()))))"

fun update_table_schema :: "real \<Rightarrow> pydict \<Rightarrow> aq \<Rightarrow> aq \<times> unit res" where
  "update_table_schema now [] s = (s, Inr ())"
| "update_table_schema now ((k, v) # rest) s =
     (if k \<notin> set (columns (fst s)) then
        (case create_column now k v s of
           (s', Inl e) \<Rightarrow> (s', Inl e)
         | (s', Inr u) \<Rightarrow> update_table_schema now rest s')
      else update_table_schema now rest s)"

text \<open>\<^verbatim>\<open>row.pop(column, None)\<close> for every column, then the assertion that nothing is left.\<close>

fun pop_columns :: "string list \<Rightarrow> pydict \<Rightarrow> pyval list \<times> pydict" where
  "pop_columns [] row = ([], row)"
| "pop_columns (column # cs) row =
     (case pop_columns cs (AList.delete column row) of
        (vs, rest) \<Rightarrow> ((case map_of row column of None \<Rightarrow> PNone | Some v \<Rightarrow> v) # vs, rest))"

fun reorder_to_match_table_schema :: "string list \<Rightarrow> pydict list \<Rightarrow> pyval list list res" where
  "reorder_to_match_table_schema cols [] = Inr []"
| "reorder_to_match_table_schema cols (row # rows) =
     (case pop_columns cols row of
        (new_row, rest) \<Rightarrow>
          if rest \<noteq> [] then Inl AssertionError
          else (case reorder_to_match_table_schema cols rows of
                  Inl e \<Rightarrow> Inl e
                | Inr new_rows \<Rightarrow> Inr (new_row # new_rows)))"

subsection \<open>puts and gets\<close>

fun isinstance_dict :: "pyval \<Rightarrow> bool" where
  "isinstance_dict (PDict _) = True"
| "isinstance_dict _ = False"

fun dict_items :: "pyval \<Rightarrow> pydict" where
  "dict_items (PDict d) = d"
| "dict_items _ = []"

fun insert_all :: "real \<Rightarrow> pyval list list \<Rightarrow> int list \<Rightarrow> aq \<Rightarrow> aq \<times> int list res" where
  "insert_all now [] keys s = (s, Inr keys)"
| "insert_all now (item # items) keys s =
     (case con now s of (q, t) \<Rightarrow>
        (case sql_insert now (columns q) item t of
           Inl e \<Rightarrow> ((q, t), Inl e)
         | Inr (t', ret) \<Rightarrow>
             insert_all now items (case ret of None \<Rightarrow> keys | Some key \<Rightarrow> keys @ [key]) (q, t')))"

definition puts :: "real \<Rightarrow> pyval list \<Rightarrow> aq \<Rightarrow> aq \<times> int list res" where
  "puts now items s =
     (if length items = 0 then (s, Inr [])
      else if \<not> list_all isinstance_dict items then (s, Inl ValueError)
      else if \<not> list_all (\<lambda>i. length (dict_items i) > 0) items then (s, Inl ValueError)
      else
        (case max_size_block now s of
           (s1, Inl e) \<Rightarrow> (s1, Inl e)
         | (s1, Inr u) \<Rightarrow>
             let flat = flatten_array_columns (map dict_items items) in
             (case update_table_schema now (hd flat) s1 of
                (s2, Inl e) \<Rightarrow> (s2, Inl e)
              | (s2, Inr u) \<Rightarrow>
                  (case reorder_to_match_table_schema (columns (fst s2)) flat of
                     Inl e \<Rightarrow> (s2, Inl e)
                   | Inr rows \<Rightarrow>
                       (case insert_all now rows [] s2 of
                          (s3, Inl e) \<Rightarrow> (s3, Inl e)
                        | (s3, Inr keys) \<Rightarrow> (con now s3, Inr keys))))))"

definition put :: "real \<Rightarrow> pyval \<Rightarrow> aq \<Rightarrow> aq \<times> int res" where
  "put now item s =
     (case puts now [item] s of
        (s', Inl e) \<Rightarrow> (s', Inl e)
      | (s', Inr [key]) \<Rightarrow> (s', Inr key)
      | (s', Inr _) \<Rightarrow> (s', Inl ValueError))"

definition select :: "real \<Rightarrow> nat \<Rightarrow> nat \<Rightarrow> bool \<Rightarrow> aq \<Rightarrow> aq \<times> (int \<times> pyval list) list res" where
  "select now n offset read_all s =
     (case con now s of (q, t) \<Rightarrow> ((q, t), sql_select (columns q) read_all n offset t))"

text \<open>\<^verbatim>\<open>{k: v for (k, v) in zip(self.columns, row[3:])}\<close>\<close>

definition process_rows :: "string list \<Rightarrow> (int \<times> pyval list) list \<Rightarrow> pydict list" where
  "process_rows cols rows =
     map (\<lambda>row. foldl (\<lambda>d (k, v). AList.update k v d) [] (zip cols (snd row))) rows"

text \<open>
  \<^verbatim>\<open>gets\<close> returns the keys with the items (\<^verbatim>\<open>return_keys\<close> only drops them);
  \<open>offset\<close> is the draw of \<^verbatim>\<open>random.randint\<close>, or 0 without \<^verbatim>\<open>random_offset\<close>.
\<close>

definition gets ::
  "real \<Rightarrow> nat \<Rightarrow> nat \<Rightarrow> bool \<Rightarrow> bool \<Rightarrow> aq \<Rightarrow> aq \<times> (int list \<times> pydict list) res" where
  "gets now n offset ack read_all s =
     (case select now n offset read_all s of
        (s1, Inl e) \<Rightarrow> (s1, Inl e)
      | (s1, Inr rows) \<Rightarrow>
          (case unflatten_array_columns (process_rows (columns (fst s1)) rows) of
             Inl e \<Rightarrow> (s1, Inl e)
           | Inr items \<Rightarrow>
               (case (if ack then updates now (map fst rows) unack s1 else (s1, Inr ())) of
                  (s2, Inl e) \<Rightarrow> (s2, Inl e)
                | (s2, Inr u) \<Rightarrow> (con now s2, Inr (map fst rows, items)))))"

subsection \<open>Construction\<close>

text \<open>
  \<^verbatim>\<open>__init__\<close> on a file in which the table is \<open>old\<close> (\<open>None\<close>: not there yet). An empty
  \<^verbatim>\<open>unique_column\<close> is falsy. The connection is opened by the first statement, so the
  sweep is skipped before the CREATE and due from \<^verbatim>\<open>read_columns\<close> on.
\<close>

definition init ::
  "real \<Rightarrow> string option \<Rightarrow> real \<Rightarrow> nat option \<Rightarrow> bool \<Rightarrow> table option \<Rightarrow> aq res" where
  "init now unique_column tmo msize del old =
     (let uc = (case unique_column of None \<Rightarrow> None | Some u \<Rightarrow> if u = [] then None else Some u)
      in if old = None \<and> (\<exists>u \<in> set reserved. uc = Some u) then Inl StoreError
         else
           (case con now (con now
                   (\<lparr>timeout = tmo, max_size = msize, delete_on_ack = del, columns = [],
                     con_open = False, last_timeout_application = 0, count_cache = None\<rparr>,
                    sql_create uc old)) of
              (q, t) \<Rightarrow>
                let cols = map fst (tcols t);
                    cols' = (case uc of
                               None \<Rightarrow> cols
                             | Some u \<Rightarrow> if u \<notin> set cols then cols @ [u] else cols)
                in Inr (con now (q\<lparr>columns := cols'\<rparr>, t))))"

section \<open>IOQueues\<close>

text \<open>
  A file is a map from table names to tables. An \<^verbatim>\<open>IOQueues\<close> object holds a queue
  object for its input and one for its output table, both in the same file.
\<close>

type_synonym db = "string \<Rightarrow> table option"

record ioq_obj =
  input_q_name :: "string option"
  output_q_name :: "string option"
  input_q :: "ackq option"
  output_q :: "ackq option"
  batch_size :: nat
  input_q_id_column :: string
  output_q_id_column :: string

type_synonym ioq = "ioq_obj \<times> db"

text \<open>The keyword arguments of \<^verbatim>\<open>SQLiteAckQueue\<close> that \<^verbatim>\<open>queue_kwargs\<close> carries.\<close>

record queue_kwargs =
  kw_unique_column :: "string option"
  kw_timeout :: real
  kw_max_size :: "nat option"
  kw_delete_on_ack :: bool

definition default_kwargs :: queue_kwargs where
  "default_kwargs =
     \<lparr>kw_unique_column = None, kw_timeout = 300, kw_max_size = None, kw_delete_on_ack = False\<rparr>"

definition truthy :: "string option \<Rightarrow> bool" where
  "truthy n = (n \<noteq> None \<and> n \<noteq> Some [])"

definition new_queue :: "real \<Rightarrow> string \<Rightarrow> queue_kwargs \<Rightarrow> db \<Rightarrow> (ackq \<times> db) res" where
  "new_queue now name kw d =
     (case init now (kw_unique_column kw) (kw_timeout kw) (kw_max_size kw) (kw_delete_on_ack kw)
             (d name) of
        Inl e \<Rightarrow> Inl e
      | Inr (q, t) \<Rightarrow> Inr (q, d(name \<mapsto> t)))"

definition new_queue_opt ::
  "real \<Rightarrow> string option \<Rightarrow> queue_kwargs \<Rightarrow> db \<Rightarrow> (ackq option \<times> db) res" where
  "new_queue_opt now name kw d =
     (if truthy name then
        (case new_queue now (the name) kw d of
           Inl e \<Rightarrow> Inl e
         | Inr (q, d') \<Rightarrow> Inr (Some q, d'))
      else Inr (None, d))"

definition ioq_init ::
  "real \<Rightarrow> string option \<Rightarrow> string option \<Rightarrow> string option \<Rightarrow> string option \<Rightarrow> nat \<Rightarrow>
   queue_kwargs \<Rightarrow> db \<Rightarrow> ioq res" where
  "ioq_init now in_name out_name in_col out_col bsize kw d =
     (case new_queue_opt now in_name kw d of
        Inl e \<Rightarrow> Inl e
      | Inr (inq, d1) \<Rightarrow>
          (case new_queue_opt now out_name kw d1 of
             Inl e \<Rightarrow> Inl e
           | Inr (outq, d2) \<Rightarrow>
               Inr (\<lparr>input_q_name = in_name, output_q_name = out_name,
                      input_q = inq, output_q = outq, batch_size = bsize,
                      input_q_id_column = (if truthy in_col then the in_col else ''_id''),
                      output_q_id_column = (if truthy out_col then the out_col else ''_id'')\<rparr>,
                    d2)))"

text \<open>
  A method of the input or the output queue, run on its table in the file. A queue
  that is \<^verbatim>\<open>None\<close> has no methods.
\<close>

definition on_table ::
  "string option \<Rightarrow> ackq option \<Rightarrow> (aq \<Rightarrow> aq \<times> 'a res) \<Rightarrow> db \<Rightarrow> (ackq option \<times> db) \<times> 'a res" where
  "on_table name q f d =
     (case q of
        None \<Rightarrow> ((q, d), Inl AttributeError)
      | Some q0 \<Rightarrow>
          (case d (the name) of
             None \<Rightarrow> ((q, d), Inl StoreError)
           | Some t \<Rightarrow> (case f (q0, t) of ((q', t'), r) \<Rightarrow> ((Some q', d(the name \<mapsto> t')), r))))"

definition on_input :: "(aq \<Rightarrow> aq \<times> 'a res) \<Rightarrow> ioq \<Rightarrow> ioq \<times> 'a res" where
  "on_input f s =
     (case s of (io, d) \<Rightarrow>
        (case on_table (input_q_name io) (input_q io) f d of
           ((q', d'), r) \<Rightarrow> ((io\<lparr>input_q := q'\<rparr>, d'), r)))"

definition on_output :: "(aq \<Rightarrow> aq \<times> 'a res) \<Rightarrow> ioq \<Rightarrow> ioq \<times> 'a res" where
  "on_output f s =
     (case s of (io, d) \<Rightarrow>
        (case on_table (output_q_name io) (output_q io) f d of
           ((q', d'), r) \<Rightarrow> ((io\<lparr>output_q := q'\<rparr>, d'), r)))"

definition ioq_acks :: "real \<Rightarrow> int list \<Rightarrow> ioq \<Rightarrow> ioq \<times> unit res" where
  "ioq_acks now keys s = on_input (acks now keys acked) s"

definition load :: "real \<Rightarrow> pyval list \<Rightarrow> ioq \<Rightarrow> ioq \<times> int list res" where
  "load now rows s = on_input (puts now rows) s"

definition ioq_puts :: "real \<Rightarrow> pyval list \<Rightarrow> ioq \<Rightarrow> ioq \<times> int list res" where
  "ioq_puts now rows s = on_output (puts now rows) s"

text \<open>
  SQL equality of two stored values: a null equals nothing, numbers compare by value,
  and a number is no string. This is SQLite's \<^verbatim>\<open>=\<close> between two columns declared with
  the same type that hold values of that type; between a \<open>TEXT\<close> and a numeric column
  SQLite converts before it compares.
\<close>

fun sql_equal :: "pyval \<Rightarrow> pyval \<Rightarrow> bool" where
  "sql_equal PNone b = False"
| "sql_equal a PNone = False"
| "sql_equal (PInt i) (PFloat r) = (of_int i = r)"
| "sql_equal (PFloat r) (PInt i) = (r = of_int i)"
| "sql_equal a b = (a = b)"

text \<open>An input row has a partner in the output table on the join columns.\<close>

definition joined :: "table \<Rightarrow> string \<Rightarrow> table \<Rightarrow> string \<Rightarrow> row \<Rightarrow> bool" where
  "joined ti ic tout oc r =
     (\<exists>out \<in> set (trows tout).
        case (cell ti r ic, cell tout out oc) of
          (Some a, Some b) \<Rightarrow> sql_equal a b
        | _ \<Rightarrow> False)"

text \<open>
  The rows both \<^verbatim>\<open>_SQL_SIZE_DELTA\<close> and \<^verbatim>\<open>_SQL_GETS\<close> range over:
  \<^verbatim>\<open>FROM input LEFT JOIN output ON input.ic = output.oc WHERE output.oc IS NULL AND input.status < 2\<close>.
  The statement fails on a missing table or column, and on a table joined with itself
  (the column names are then ambiguous).
\<close>

definition sql_delta :: "ioq_obj \<Rightarrow> db \<Rightarrow> (table \<times> row list) res" where
  "sql_delta io d =
     (if \<not> truthy (input_q_name io) \<or> \<not> truthy (output_q_name io)
         \<or> input_q_name io = output_q_name io then Inl StoreError
      else
        (case (d (the (input_q_name io)), d (the (output_q_name io))) of
           (Some ti, Some tout) \<Rightarrow>
             if input_q_id_column io \<notin> set (table_names ti)
                \<or> output_q_id_column io \<notin> set (table_names tout) then Inl StoreError
             else Inr (ti, filter (\<lambda>r. \<not> joined ti (input_q_id_column io) tout (output_q_id_column io) r
                                        \<and> rstatus r < unack) (trows ti))
         | _ \<Rightarrow> Inl StoreError))"

text \<open>\<^verbatim>\<open>self.input_q.con.execute(query)\<close>: the input queue's connection, then the statement.\<close>

definition execute_delta :: "real \<Rightarrow> ioq \<Rightarrow> ioq \<times> (table \<times> row list) res" where
  "execute_delta now s =
     (case on_input (\<lambda>a. (con now a, Inr ())) s of
        (s', Inl e) \<Rightarrow> (s', Inl e)
      | ((io, d), Inr u) \<Rightarrow> ((io, d), sql_delta io d))"

definition size_ready :: "real \<Rightarrow> ioq \<Rightarrow> ioq \<times> nat res" where
  "size_ready now s =
     (if input_q (fst s) = None then (s, Inr 0)
      else
        (case execute_delta now s of
           (s', Inl e) \<Rightarrow> (s', Inl e)
         | (s', Inr (ti, rows)) \<Rightarrow> (s', Inr (length rows))))"

text \<open>
  \<^verbatim>\<open>IOQueues.gets\<close>: \<^verbatim>\<open>None\<close> without an input queue; otherwise up to
  \<open>batch_size\<close> of those rows, as dictionaries of the table's user columns, with
  their keys, and the rows marked \<open>unack\<close>.
\<close>

definition ioq_gets ::
  "real \<Rightarrow> nat option \<Rightarrow> ioq \<Rightarrow> ioq \<times> (int list \<times> pydict list) option res" where
  "ioq_gets now bs s =
     (if input_q (fst s) = None then (s, Inr None)
      else
        (case execute_delta now s of
           (s1, Inl e) \<Rightarrow> (s1, Inl e)
         | (s1, Inr (ti, found)) \<Rightarrow>
             let rows = take (case bs of None \<Rightarrow> batch_size (fst s) | Some b \<Rightarrow> b) found;
                 keys = map rid rows
             in (case unflatten_array_columns
                        (map (\<lambda>r. foldl (\<lambda>d (c, v). AList.update c v d) []
                                     (zip (map fst (tcols ti)) (rvals r))) rows) of
                   Inl e \<Rightarrow> (s1, Inl e)
                 | Inr items \<Rightarrow>
                     (case on_input (updates now keys unack) s1 of
                        (s2, Inl e) \<Rightarrow> (s2, Inl e)
                      | (s2, Inr u) \<Rightarrow> (s2, Inr (Some (keys, items)))))))"

section \<open>JobQueue\<close>

text \<open>
  A stage: its \<^verbatim>\<open>IOQueues\<close>, the queue object of its tasks table and the user
  function. The user function gets the batch (\<open>None\<close>: no argument, for a stage
  without input queue) and the task index, and returns rows or raises. The queues
  live in one file, the tasks tables in another; tasks are submitted by the default
  \<^verbatim>\<open>submit_func_default\<close>, which calls the wrapped function on the spot. The stages
  and the task counters are class attributes in the code, shared by the \<^verbatim>\<open>JobQueue\<close>
  objects of a process: the model is a process with one such object.
\<close>

type_synonym user_fn = "pydict list option \<Rightarrow> nat \<Rightarrow> pyval list res"

record link =
  ioqueues :: ioq_obj
  inner_func :: user_fn
  tasks :: ackq

record jobqueue =
  qdb :: db
  tdb :: db
  links :: "(string \<times> link) list"
  task_count :: "(string \<times> nat) list"

definition tasks_table :: "string \<Rightarrow> string" where
  "tasks_table name = ''tasks_'' @ name"

text \<open>An operation of a stage's \<^verbatim>\<open>IOQueues\<close>, and one of its tasks queue.\<close>

definition on_ioq :: "string \<Rightarrow> (ioq \<Rightarrow> ioq \<times> 'a res) \<Rightarrow> jobqueue \<Rightarrow> jobqueue \<times> 'a res" where
  "on_ioq name f jq =
     (case map_of (links jq) name of
        None \<Rightarrow> (jq, Inl KeyError)
      | Some l \<Rightarrow>
          (case f (ioqueues l, qdb jq) of
             ((io', d'), r) \<Rightarrow>
               (jq\<lparr>qdb := d', links := AList.update name (l\<lparr>ioqueues := io'\<rparr>) (links jq)\<rparr>, r)))"

definition on_tasks :: "string \<Rightarrow> (aq \<Rightarrow> aq \<times> 'a res) \<Rightarrow> jobqueue \<Rightarrow> jobqueue \<times> 'a res" where
  "on_tasks name f jq =
     (case map_of (links jq) name of
        None \<Rightarrow> (jq, Inl KeyError)
      | Some l \<Rightarrow>
          (case tdb jq (tasks_table name) of
             None \<Rightarrow> (jq, Inl StoreError)
           | Some t \<Rightarrow>
               (case f (tasks l, t) of
                  ((q', t'), r) \<Rightarrow>
                    (jq\<lparr>tdb := (tdb jq)(tasks_table name \<mapsto> t'),
                        links := AList.update name (l\<lparr>tasks := q'\<rparr>) (links jq)\<rparr>, r))))"

text \<open>\<^verbatim>\<open>JobQueue.link\<close>: register the stage \<open>name\<close> with its queues and its tasks table.\<close>

definition link_stage ::
  "real \<Rightarrow> string \<Rightarrow> user_fn \<Rightarrow> queue_kwargs \<Rightarrow> string option \<Rightarrow> string option \<Rightarrow>
   string option \<Rightarrow> string option \<Rightarrow> nat \<Rightarrow> queue_kwargs \<Rightarrow> jobqueue \<Rightarrow> jobqueue res" where
  "link_stage now name f taskq_kwargs in_name out_name in_col out_col bsize kw jq =
     (case ioq_init now in_name out_name in_col out_col bsize kw (qdb jq) of
        Inl e \<Rightarrow> Inl e
      | Inr (io, d) \<Rightarrow>
          (case new_queue now (tasks_table name) taskq_kwargs (tdb jq) of
             Inl e \<Rightarrow> Inl e
           | Inr (tq, td) \<Rightarrow>
               Inr (jq\<lparr>qdb := d, tdb := td,
                        links := AList.update name
                                   \<lparr>ioqueues = io, inner_func = f, tasks = tq\<rparr> (links jq)\<rparr>)))"

text \<open>
  The wrapped function \<^verbatim>\<open>func(task_id, **kwargs)\<close> of a stage. An exception leaves
  the state as the statements before it made it.
\<close>

definition func :: "real \<Rightarrow> string \<Rightarrow> int \<Rightarrow> nat \<Rightarrow> jobqueue \<Rightarrow> jobqueue \<times> unit res" where
  "func now name task_id task_index jq =
     (case on_tasks name (acks now [task_id] acked) jq of
        (jq1, Inl e) \<Rightarrow> (jq1, Inl e)
      | (jq1, Inr u) \<Rightarrow>
          (case map_of (links jq1) name of
             None \<Rightarrow> (jq1, Inl KeyError)
           | Some l \<Rightarrow>
               (case (if input_q (ioqueues l) \<noteq> None
                      then on_ioq name (ioq_gets now None) jq1
                      else (jq1, Inr None)) of
                  (jq2, Inl e) \<Rightarrow> (jq2, Inl e)
                | (jq2, Inr batch) \<Rightarrow>
                    (case inner_func l (map_option snd batch) task_index of
                       Inl e \<Rightarrow> (jq2, Inl e)
                     | Inr out_rows \<Rightarrow>
                         (case (if truthy (output_q_name (ioqueues l))
                                then on_ioq name (ioq_puts now out_rows) jq2
                                else (jq2, Inr [])) of
                            (jq3, Inl e) \<Rightarrow> (jq3, Inl e)
                          | (jq3, Inr ks) \<Rightarrow>
                              on_tasks name (acks now [task_id] ack_done) jq3)))))"











section \<open>Auxiliary predicates\<close>

text \<open>Every row of the table whose key is listed has the given status.\<close>

definition has_status :: "int list \<Rightarrow> int \<Rightarrow> table \<Rightarrow> bool" where
  "has_status keys st t = list_all (\<lambda>r. rid r \<notin> set keys \<or> rstatus r = st) (trows t)"

text \<open>
  Taking the connection leaves a settled queue as it is: its sweep is not due, or it has
  just run and found nothing left to reset.
\<close>

definition settled :: "real \<Rightarrow> aq \<Rightarrow> bool" where
  "settled now s =
     (con_open (fst s) \<and>
      (now - last_timeout_application (fst s) < timeout (fst s) \<or>
       (last_timeout_application (fst s) = now \<and>
        list_all (\<lambda>r. \<not> (rstatus r = unack \<and> rtimestamp r < now - timeout (fst s)))
          (trows (snd s)))))"


text \<open>
  A string, a float or an int of 64 bits: a value that can be bound and is neither null
  nor a container.
\<close>

fun scalar :: "pyval \<Rightarrow> bool" where
  "scalar (PInt i) = int64 i"
| "scalar (PFloat x) = True"
| "scalar (PStr s) = True"
| "scalar v = False"

text \<open>
  A queue on a table created with the UNIQUE column \<open>c\<close>, its column list in step with
  the table, and no \<open>max_size\<close>.
\<close>

definition unique_queue :: "string \<Rightarrow> aq \<Rightarrow> bool" where
  "unique_queue c s =
     (tunique (snd s) = Some c \<and> c \<notin> set reserved \<and>
      columns (fst s) = map fst (tcols (snd s)) \<and> distinct (map fst (tcols (snd s))) \<and>
      c \<in> set (map fst (tcols (snd s))) \<and> max_size (fst s) = None)"



text \<open>
  The effect of \<^verbatim>\<open>puts\<close> on a settled queue, written as pure functions: the columns
  that \<^verbatim>\<open>update_table_schema\<close> adds for the new fields of a record, and the rows the
  inserts append.
\<close>

definition add_column :: "string \<Rightarrow> coltype \<Rightarrow> table \<Rightarrow> table" where
  "add_column name ty t =
     t\<lparr>tcols := tcols t @ [(name, ty)],
       trows := map (\<lambda>r. r\<lparr>rvals := rvals r @ [PNone]\<rparr>) (trows t)\<rparr>"

text \<open>The column type \<^verbatim>\<open>create_column\<close> infers for a value it accepts.\<close>

definition the_type :: "pyval \<Rightarrow> coltype" where
  "the_type v = (case column_type v of Inr ty \<Rightarrow> ty | Inl e \<Rightarrow> TEXT)"

fun add_columns :: "pydict \<Rightarrow> ackq \<times> table \<Rightarrow> ackq \<times> table" where
  "add_columns [] s = s"
| "add_columns ((k, v) # rest) s =
     (if k \<in> set (columns (fst s)) then add_columns rest s
      else add_columns rest
             ((fst s)\<lparr>columns := columns (fst s) @ [k]\<rparr>, add_column k (the_type v) (snd s)))"

fun append_rows :: "real \<Rightarrow> pyval list list \<Rightarrow> table \<Rightarrow> table" where
  "append_rows now [] t = t"
| "append_rows now (vals # rest) t =
     append_rows now rest
       (t\<lparr>trows := trows t @ [\<lparr>rid = tseq t + 1, rtimestamp = now, rstatus = inited, rvals = vals\<rparr>],
          tseq := tseq t + 1\<rparr>)"

fun row_at :: "real \<Rightarrow> int \<Rightarrow> pyval list list \<Rightarrow> nat \<Rightarrow> row" where
  "row_at now k rows i =
     \<lparr>rid = k + 1 + int i, rtimestamp = now, rstatus = inited, rvals = rows ! i\<rparr>"

text \<open>
  The object's column list is the table's, without repetition and without a reserved
  name.
\<close>

definition in_step :: "aq \<Rightarrow> bool" where
  "in_step s = (columns (fst s) = map fst (tcols (snd s)) \<and> distinct (map fst (tcols (snd s)))
                \<and> set (map fst (tcols (snd s))) \<inter> set reserved = {})"

text \<open>\<^verbatim>\<open>row.pop(column, None)\<close> on a record: the value of the field, or null.\<close>

definition lookup_or_none :: "pydict \<Rightarrow> string \<Rightarrow> pyval" where
  "lookup_or_none f c = (case map_of f c of None \<Rightarrow> PNone | Some v \<Rightarrow> v)"

text \<open>
  The records of a batch after flattening, and the fields of the first of them that
  are not yet columns of the queue.
\<close>

definition flat_items :: "pyval list \<Rightarrow> pydict list" where
  "flat_items items = flatten_array_columns (map dict_items items)"

definition new_fields :: "aq \<Rightarrow> pyval list \<Rightarrow> string list" where
  "new_fields s items =
     filter (\<lambda>k. k \<notin> set (columns (fst s))) (map fst (hd (flat_items items)))"

text \<open>
  The columns a batch is inserted under, with their types: those of the table,
  then the new fields of the first record with the type \<^verbatim>\<open>column_type\<close> infers for
  their values there.
\<close>

definition batch_types :: "aq \<Rightarrow> pyval list \<Rightarrow> (string \<times> coltype) list" where
  "batch_types s items =
     tcols (snd s) @
     map (\<lambda>(k, v). (k, the_type v))
       (filter (\<lambda>(k, v). k \<notin> set (columns (fst s))) (hd (flat_items items)))"


text \<open>
  Records with list fields. A list value, its elements, and the flattened form of a
  field: a list becomes one field per element, named by \<open>dim_name\<close>.
\<close>

fun is_list :: "pyval \<Rightarrow> bool" where
  "is_list (PList xs) = True"
| "is_list v = False"

fun list_elems :: "pyval \<Rightarrow> pyval list" where
  "list_elems (PList xs) = xs"
| "list_elems v = []"

fun expand_field :: "string \<times> pyval \<Rightarrow> pydict" where
  "expand_field (k, PList xs) = map (\<lambda>i. (dim_name k i, xs ! i)) [0..<length xs]"
| "expand_field (k, v) = [(k, v)]"

text \<open>
  A field that survives the round trip: a list field has a name without an underscore
  and holds at least one element, all of them scalars; any other field holds a value
  sqlite3 can bind, under a name that is not reserved and has no \<^verbatim>\<open>_dim_\<close> in it. A
  record of such fields has distinct field names, as every Python dict has.
\<close>

definition array_field :: "string \<times> pyval \<Rightarrow> bool" where
  "array_field kv =
     (if is_list (snd kv)
      then CHR ''_'' \<notin> set (fst kv) \<and> list_elems (snd kv) \<noteq> [] \<and> list_all scalar (list_elems (snd kv))
      else bindable (snd kv) \<and> \<not> contains (fst kv) ''_dim_'' \<and> fst kv \<notin> set reserved)"

definition array_record :: "pydict \<Rightarrow> bool" where
  "array_record item = (distinct (map fst item) \<and> list_all array_field item)"

text \<open>The base name \<^verbatim>\<open>unflatten_array_columns\<close> reads off a column name.\<close>

definition base_name :: "string \<Rightarrow> string" where
  "base_name key = (if contains key ''_dim_'' then hd (split_us key) else key)"

text \<open>
  The record as \<^verbatim>\<open>gets\<close> returns it: the fields that are not lists in their order,
  then the list fields in theirs.
\<close>

definition read_back :: "pydict \<Rightarrow> pydict" where
  "read_back item =
     filter (\<lambda>kv. \<not> is_list (snd kv)) item @ filter (\<lambda>kv. is_list (snd kv)) item"

text \<open>The table \<^verbatim>\<open>CREATE TABLE\<close> makes when none exists and no column is unique.\<close>

definition empty_table :: table where
  "empty_table = \<lparr>tcols = [], tunique = None, trows = [], tseq = 0\<rparr>"


text \<open>
  The input table as a statement on the input queue's connection finds it: the sweep of
  \<^verbatim>\<open>con\<close> has run.
\<close>

definition swept :: "real \<Rightarrow> ackq \<Rightarrow> table \<Rightarrow> table" where
  "swept now q t = snd (con now (q, t))"

text \<open>The input rows without a partner in the output table whose status is below \<open>unack\<close>.\<close>

definition unjoined :: "ioq_obj \<Rightarrow> table \<Rightarrow> table \<Rightarrow> row list" where
  "unjoined io ti tout =
     filter (\<lambda>r. \<not> joined ti (input_q_id_column io) tout (output_q_id_column io) r
                 \<and> rstatus r < unack) (trows ti)"

text \<open>
  An \<^verbatim>\<open>IOQueues\<close> with an input queue \<open>qi\<close> on the table \<open>ti\<close> and an output table
  \<open>tout\<close> under another name, both tables having their id column.
\<close>

definition wired :: "ioq \<Rightarrow> ackq \<Rightarrow> table \<Rightarrow> table \<Rightarrow> bool" where
  "wired s qi ti tout =
     (case s of (io, d) \<Rightarrow>
        input_q io = Some qi \<and> truthy (input_q_name io) \<and> truthy (output_q_name io)
        \<and> input_q_name io \<noteq> output_q_name io
        \<and> d (the (input_q_name io)) = Some ti \<and> d (the (output_q_name io)) = Some tout
        \<and> input_q_id_column io \<in> set (table_names ti)
        \<and> output_q_id_column io \<in> set (table_names tout))"

text \<open>The dictionaries \<^verbatim>\<open>IOQueues.gets\<close> builds from rows, before lists are rebuilt.\<close>

definition row_dicts :: "table \<Rightarrow> row list \<Rightarrow> pydict list" where
  "row_dicts ti rows =
     map (\<lambda>r. foldl (\<lambda>d (c, v). AList.update c v d) [] (zip (map fst (tcols ti)) (rvals r))) rows"


text \<open>The statuses of the rows with key \<open>k\<close> in the tasks table of a stage.\<close>

definition task_row_status :: "jobqueue \<Rightarrow> string \<Rightarrow> int \<Rightarrow> int list" where
  "task_row_status jq name k =
     (case tdb jq (tasks_table name) of
        None \<Rightarrow> []
      | Some t \<Rightarrow> map rstatus (filter (\<lambda>r. rid r = k) (trows t)))"


section \<open>Example states\<close>

text \<open>
  A queue built by \<^verbatim>\<open>SQLiteAckQueue(path)\<close> on an empty file at time 0, and its
  states after \<^verbatim>\<open>puts([{'a': 1}])\<close>, \<^verbatim>\<open>gets(1)\<close> and \<^verbatim>\<open>acks([1])\<close>.
\<close>

definition q_a0 :: aq where
  "q_a0 = (\<lparr>timeout = 300, max_size = None, delete_on_ack = False, columns = [],
            con_open = True, last_timeout_application = 0, count_cache = None\<rparr>,
          \<lparr>tcols = [], tunique = None, trows = [], tseq = 0\<rparr>)"

definition q_a1 :: aq where
  "q_a1 = (\<lparr>timeout = 300, max_size = None, delete_on_ack = False, columns = [''a''],
            con_open = True, last_timeout_application = 0, count_cache = None\<rparr>,
          \<lparr>tcols = [(''a'', INTEGER)], tunique = None,
            trows = [\<lparr>rid = 1, rtimestamp = 1, rstatus = 0, rvals = [PInt 1]\<rparr>], tseq = 1\<rparr>)"

definition q_a2 :: aq where
  "q_a2 = (\<lparr>timeout = 300, max_size = None, delete_on_ack = False, columns = [''a''],
            con_open = True, last_timeout_application = 0, count_cache = None\<rparr>,
          \<lparr>tcols = [(''a'', INTEGER)], tunique = None,
            trows = [\<lparr>rid = 1, rtimestamp = 1, rstatus = 2, rvals = [PInt 1]\<rparr>], tseq = 1\<rparr>)"

definition q_a3 :: aq where
  "q_a3 = (\<lparr>timeout = 300, max_size = None, delete_on_ack = False, columns = [''a''],
            con_open = True, last_timeout_application = 0, count_cache = None\<rparr>,
          \<lparr>tcols = [(''a'', INTEGER)], tunique = None,
            trows = [\<lparr>rid = 1, rtimestamp = 1, rstatus = 5, rvals = [PInt 1]\<rparr>], tseq = 1\<rparr>)"

text \<open>A queue object with the default settings and an open connection.\<close>

definition q_dup :: ackq where
  "q_dup = \<lparr>timeout = 300, max_size = None, delete_on_ack = False, columns = [],
     con_open = True, last_timeout_application = 0, count_cache = None\<rparr>"

definition t_dup :: table where
  "t_dup = \<lparr>tcols = [], tunique = None,
     trows = [\<lparr>rid = 1, rtimestamp = 0, rstatus = 0, rvals = []\<rparr>], tseq = 1\<rparr>"

definition t_ack :: table where
  "t_ack = \<lparr>tcols = [], tunique = None,
     trows = [\<lparr>rid = 1, rtimestamp = 0, rstatus = 2, rvals = []\<rparr>,
              \<lparr>rid = 2, rtimestamp = 0, rstatus = 5, rvals = []\<rparr>,
              \<lparr>rid = 3, rtimestamp = 0, rstatus = 0, rvals = []\<rparr>], tseq = 3\<rparr>"

text \<open>One row in every status, and an \<open>unack\<close> row too young to be swept at time 1000.\<close>

definition t_sweep :: table where
  "t_sweep = \<lparr>tcols = [], tunique = None,
     trows = [\<lparr>rid = 1, rtimestamp = 0, rstatus = 0, rvals = []\<rparr>,
              \<lparr>rid = 2, rtimestamp = 0, rstatus = 1, rvals = []\<rparr>,
              \<lparr>rid = 3, rtimestamp = 0, rstatus = 2, rvals = []\<rparr>,
              \<lparr>rid = 4, rtimestamp = 900, rstatus = 2, rvals = []\<rparr>,
              \<lparr>rid = 5, rtimestamp = 0, rstatus = 5, rvals = []\<rparr>,
              \<lparr>rid = 6, rtimestamp = 0, rstatus = 9, rvals = []\<rparr>,
              \<lparr>rid = 7, rtimestamp = 0, rstatus = 17, rvals = []\<rparr>], tseq = 7\<rparr>"

definition t_swept :: table where
  "t_swept = \<lparr>tcols = [], tunique = None,
     trows = [\<lparr>rid = 1, rtimestamp = 0, rstatus = 0, rvals = []\<rparr>,
              \<lparr>rid = 2, rtimestamp = 0, rstatus = 1, rvals = []\<rparr>,
              \<lparr>rid = 3, rtimestamp = 0, rstatus = 1, rvals = []\<rparr>,
              \<lparr>rid = 4, rtimestamp = 900, rstatus = 2, rvals = []\<rparr>,
              \<lparr>rid = 5, rtimestamp = 0, rstatus = 5, rvals = []\<rparr>,
              \<lparr>rid = 6, rtimestamp = 0, rstatus = 9, rvals = []\<rparr>,
              \<lparr>rid = 7, rtimestamp = 0, rstatus = 17, rvals = []\<rparr>], tseq = 7\<rparr>"




text \<open>
  The fresh queue after \<^verbatim>\<open>puts([{'a': 1}, {'b': 2}])\<close> has failed, and three
  batches.
\<close>

definition q_ab :: aq where
  "q_ab = (\<lparr>timeout = 300, max_size = None, delete_on_ack = False, columns = [''a''],
            con_open = True, last_timeout_application = 0, count_cache = None\<rparr>,
          \<lparr>tcols = [(''a'', INTEGER)], tunique = None, trows = [], tseq = 0\<rparr>)"

definition items_ab :: "pyval list" where
  "items_ab = [PDict [(''a'', PInt 1)], PDict [(''b'', PInt 2)]]"

definition items_ac :: "pyval list" where
  "items_ac = [PDict [(''a'', PInt 5), (''c'', PStr ''x'')], PDict [(''c'', PStr ''y'')]]"

definition items_d :: "pyval list" where
  "items_d = [PDict [(''d'', PDict [(''e'', PInt 1)])]]"

text \<open>
  Three records with a list field: one that is read back as written, one whose field
  name has an underscore, one whose list is empty.
\<close>

definition item_vec :: pydict where
  "item_vec = [(''name'', PStr ''x''), (''vec'', PList [PInt 1, PInt 2, PInt 3])]"

definition item_us :: pydict where
  "item_us = [(''my_vec'', PList [PInt 1])]"

definition item_empty :: pydict where
  "item_empty = [(''a'', PInt 1), (''v'', PList [])]"

text \<open>
  An \<^verbatim>\<open>IOQueues\<close> from table \<open>a\<close> to table \<open>b\<close> with batch size 1 and the default id
  columns: built on an empty file, loaded with two records, one batch consumed, and
  that batch written to the output (\<open>s_i3\<close>); or a second batch consumed by another
  worker and written first (\<open>s_j4\<close>).
\<close>

definition q_x :: ackq where
  "q_x = \<lparr>timeout = 300, max_size = None, delete_on_ack = False, columns = [''x''],
     con_open = True, last_timeout_application = 0, count_cache = None\<rparr>"

definition io_ab :: "string list \<Rightarrow> string list \<Rightarrow> ioq_obj" where
  "io_ab cin cout =
     \<lparr>input_q_name = Some ''a'', output_q_name = Some ''b'',
       input_q = Some (q_x\<lparr>columns := cin\<rparr>), output_q = Some (q_x\<lparr>columns := cout\<rparr>),
       batch_size = 1, input_q_id_column = ''_id'', output_q_id_column = ''_id''\<rparr>"

definition t_x :: "int \<Rightarrow> int \<Rightarrow> table" where
  "t_x st1 st2 = \<lparr>tcols = [(''x'', INTEGER)], tunique = None,
     trows = [\<lparr>rid = 1, rtimestamp = 1, rstatus = st1, rvals = [PInt 1]\<rparr>,
              \<lparr>rid = 2, rtimestamp = 1, rstatus = st2, rvals = [PInt 2]\<rparr>], tseq = 2\<rparr>"

definition t_out :: "real \<Rightarrow> int \<Rightarrow> table" where
  "t_out ts v = \<lparr>tcols = [(''x'', INTEGER)], tunique = None,
     trows = [\<lparr>rid = 1, rtimestamp = ts, rstatus = 0, rvals = [PInt v]\<rparr>], tseq = 1\<rparr>"

definition db_ab :: "table \<Rightarrow> table \<Rightarrow> db" where
  "db_ab ti tout = (\<lambda>n. if n = ''a'' then Some ti else if n = ''b'' then Some tout else None)"

definition s_i0 :: ioq where "s_i0 = (io_ab [] [], db_ab empty_table empty_table)"

definition s_i1 :: ioq where "s_i1 = (io_ab [''x''] [], db_ab (t_x 0 0) empty_table)"

definition s_i2 :: ioq where "s_i2 = (io_ab [''x''] [], db_ab (t_x 2 0) empty_table)"

definition s_i3 :: ioq where "s_i3 = (io_ab [''x''] [''x''], db_ab (t_x 2 0) (t_out 3 1))"

definition s_j3 :: ioq where "s_j3 = (io_ab [''x''] [], db_ab (t_x 2 2) empty_table)"

definition s_j4 :: ioq where "s_j4 = (io_ab [''x''] [''x''], db_ab (t_x 2 2) (t_out 4 2))"



text \<open>
  A \<^verbatim>\<open>JobQueue\<close> on empty files, a user function that raises and one that returns
  its batch, and the states of a stage \<open>f\<close> from table \<open>a\<close> to table \<open>b\<close>.
\<close>

definition empty_jq :: jobqueue where
  "empty_jq = \<lparr>qdb = Map.empty, tdb = Map.empty, links = [], task_count = []\<rparr>"

definition fails :: user_fn where
  "fails b i = Inl WorkerError"

definition copies :: user_fn where
  "copies b i = Inr (case b of None \<Rightarrow> [] | Some items \<Rightarrow> map PDict items)"

definition t_task :: "int \<Rightarrow> table" where
  "t_task st = \<lparr>tcols = [(''task_index'', INTEGER)], tunique = None,
     trows = [\<lparr>rid = 1, rtimestamp = 2, rstatus = st, rvals = [PInt 0]\<rparr>], tseq = 1\<rparr>"

definition jq_f ::
  "user_fn \<Rightarrow> string list \<Rightarrow> string list \<Rightarrow> table \<Rightarrow> table \<Rightarrow> string list \<Rightarrow> table \<Rightarrow> jobqueue" where
  "jq_f f cin cout ti tout ctask tt =
     \<lparr>qdb = db_ab ti tout,
       tdb = (\<lambda>n. if n = ''tasks_f'' then Some tt else None),
       links = [(''f'', \<lparr>ioqueues = io_ab cin cout, inner_func = f,
                         tasks = q_x\<lparr>columns := ctask\<rparr>\<rparr>)],
       task_count = []\<rparr>"











section \<open>The connection and the sweep\<close>

declare int64_def [simp]

lemmas AckStatus_defs = inited_def ready_def unack_def acked_def ack_failed_def ack_done_def

lemmas con_eval = con_def apply_timeout_def sql_timeout_def AckStatus_defs

lemmas puts_eval = puts_def max_size_block_def flatten_array_columns_def create_column_def
  sql_create_column_def table_names_def reserved_def sql_insert_def unique_conflict_def
  dim_name_def

lemmas gets_eval = gets_def select_def sql_select_def process_rows_def unflatten_item_def
  updates_def sql_mark_ack_update_def cell_def table_names_def reserved_def

lemmas aq_eval = acks_def updates_def delete_def con_def apply_timeout_def sql_timeout_def
  sql_mark_ack_update_def sql_delete_def sql_count_def AckStatus_defs

lemma sql_timeout_twice: "sql_timeout c (sql_timeout c t) = sql_timeout c t"
  by (simp add: sql_timeout_def AckStatus_defs comp_def cong: map_cong)

lemma con_con: "con_open (fst s) \<Longrightarrow> con now (con now s) = con now s"
  by (cases s) (auto simp: con_def apply_timeout_def sql_timeout_twice split: prod.splits if_splits)

lemma con_open_con: "con_open (fst (con now s))"
  by (cases s) (auto simp: con_def apply_timeout_def split: prod.splits if_splits)

lemma rid_sql_timeout: "map rid (trows (sql_timeout c t)) = map rid (trows t)"
  by (simp add: sql_timeout_def comp_def)

lemma rid_con: "map rid (trows (snd (con now s))) = map rid (trows (snd s))"
  by (cases s) (auto simp: con_def apply_timeout_def rid_sql_timeout split: prod.splits)

lemma length_con: "length (trows (snd (con now s))) = length (trows (snd s))"
  using rid_con[of now s] by (metis length_map)

lemma q_con: "delete_on_ack (fst (con now s)) = delete_on_ack (fst s)"
  by (cases s) (auto simp: con_def apply_timeout_def split: prod.splits)

section \<open>Bulk updates and acknowledgement\<close>

lemma count_keys_le:
  assumes "distinct (map rid rows)"
  shows "length (filter (\<lambda>r. rid r \<in> set keys) rows) = card (rid ` set rows \<inter> set keys)"
proof -
  have "length (filter (\<lambda>r. rid r \<in> set keys) rows) = length (filter (\<lambda>k. k \<in> set keys) (map rid rows))"
    by (simp add: filter_map comp_def)
  also have "\<dots> = card (set (filter (\<lambda>k. k \<in> set keys) (map rid rows)))"
    using distinct_card[OF distinct_filter[OF assms]] by metis
  also have "set (filter (\<lambda>k. k \<in> set keys) (map rid rows)) = rid ` set rows \<inter> set keys"
    by auto
  finally show ?thesis .
qed

lemma returned_eq_iff:
  assumes "distinct (map rid rows)" "distinct keys"
  shows "length (filter (\<lambda>r. rid r \<in> set keys) rows) = length keys \<longleftrightarrow> set keys \<subseteq> rid ` set rows"
proof -
  have c: "card (set keys) = length keys" using assms(2) by (simp add: distinct_card)
  have "card (rid ` set rows \<inter> set keys) = card (set keys) \<longleftrightarrow> set keys \<subseteq> rid ` set rows"
  proof
    assume "card (rid ` set rows \<inter> set keys) = card (set keys)"
    then have "rid ` set rows \<inter> set keys = set keys"
      by (intro card_subset_eq) auto
    then show "set keys \<subseteq> rid ` set rows" by blast
  next
    assume "set keys \<subseteq> rid ` set rows"
    then have "rid ` set rows \<inter> set keys = set keys" by blast
    then show "card (rid ` set rows \<inter> set keys) = card (set keys)" by simp
  qed
  then show ?thesis using count_keys_le[OF assms(1)] c by simp
qed

lemma returned_le:
  assumes "distinct (map rid rows)"
  shows "length (filter (\<lambda>r. rid r \<in> set keys) rows) \<le> card (set keys)"
  using count_keys_le[OF assms, of keys] by (simp add: card_mono)

lemma returned_dup:
  assumes "distinct (map rid rows)" "\<not> distinct keys"
  shows "length (filter (\<lambda>r. rid r \<in> set keys) rows) < length keys"
proof -
  have "card (set keys) < length keys"
    using assms(2) card_distinct card_length le_neq_implies_less by blast 
  then show ?thesis using returned_le[OF assms(1), of keys] by linarith
qed

lemma updates_result:
  "updates now keys st s =
     (if length (filter (\<lambda>r. rid r \<in> set keys) (trows (snd (con now s)))) \<noteq> length keys
      then ((fst (con now s), fst (sql_mark_ack_update keys st (snd (con now s)))), Inl KeyError)
      else (con now (fst (con now s), fst (sql_mark_ack_update keys st (snd (con now s)))), Inr ()))"
  by (simp add: updates_def sql_mark_ack_update_def split: prod.splits)

lemma ids_con: "rid ` set (trows (snd (con now s))) = rid ` set (trows (snd s))"
  using rid_con[of now s] by (metis set_map)

lemma distinct_con: "distinct (map rid (trows (snd (con now s)))) = distinct (map rid (trows (snd s)))"
  by (simp add: rid_con)

lemma snd_acks: "snd (acks now keys st s) = snd (updates now keys st s)"
  by (auto simp: acks_def split: prod.splits sum.splits)

lemma has_status_mark: "has_status keys st (fst (sql_mark_ack_update keys st t))"
  by (auto simp: has_status_def sql_mark_ack_update_def list_all_iff)

lemma mark_has_status: "has_status keys st t \<Longrightarrow> fst (sql_mark_ack_update keys st t) = t"
proof -
  assume "has_status keys st t"
  then have "map (\<lambda>r. if rid r \<in> set keys then r\<lparr>rstatus := st\<rparr> else r) (trows t) = trows t"
    by (intro map_idI) (auto simp: has_status_def list_all_iff)
  then show ?thesis by (simp add: sql_mark_ack_update_def)
qed

lemma has_status_timeout:
  "st \<noteq> unack \<Longrightarrow> has_status keys st t \<Longrightarrow> has_status keys st (sql_timeout c t)"
  by (auto simp: has_status_def sql_timeout_def list_all_iff)

lemma has_status_con:
  "st \<noteq> unack \<Longrightarrow> has_status keys st (snd s) \<Longrightarrow> has_status keys st (snd (con now s))"
  by (cases s) (auto simp: con_def apply_timeout_def has_status_timeout split: prod.splits)

lemma has_status_con':
  "st \<noteq> unack \<Longrightarrow> has_status keys st t \<Longrightarrow> has_status keys st (snd (con now (q, t)))"
  using has_status_con[of st keys "(q, t)" now] by simp

lemma sql_delete_nil: "sql_delete [] t = t"
  by (simp add: sql_delete_def)

lemma ids_delete: "rid ` set (trows (sql_delete keys t)) = rid ` set (trows t) - set keys"
  by (auto simp: sql_delete_def)

lemma prod_fst_snd: "(fst (con now s), snd (con now s)) = con now s"
  by simp

lemma reack:
  assumes st: "st \<noteq> unack" and op: "con_open (fst s)" and hs: "has_status keys st (snd s)"
    and sub: "set keys \<subseteq> rid ` set (trows (snd s))"
    and dk: "distinct keys" and dr: "distinct (map rid (trows (snd s)))"
    and del: "delete_on_ack (fst s) \<longrightarrow> keys = []"
  shows "acks now keys st s = (con now s, Inr ())"
proof -
  let ?c = "con now s"
  have hc: "has_status keys st (snd ?c)" using has_status_con[OF st hs] .
  have m: "fst (sql_mark_ack_update keys st (snd ?c)) = snd ?c" using mark_has_status[OF hc] .
  have n: "length (filter (\<lambda>r. rid r \<in> set keys) (trows (snd ?c))) = length keys"
    using returned_eq_iff[of "trows (snd ?c)" keys] dk dr sub
    by (simp add: distinct_con ids_con)
  have u: "updates now keys st s = (?c, Inr ())"
    using n m by (simp add: updates_result con_con[OF op])
  have dl: "delete_on_ack (fst ?c) = delete_on_ack (fst s)"
    by (cases s) (auto simp: con_def apply_timeout_def split: prod.splits)
  show ?thesis
  proof (cases "delete_on_ack (fst s)")
    case False
    then show ?thesis using u dl by (simp add: acks_def)
  next
    case True
    then have "keys = []" using del by simp
    then have "delete now keys ?c = ?c"
      by (simp add: delete_def sql_delete_nil con_con[OF op] con_con[OF con_open_con] split: prod.splits)
    then show ?thesis using u dl True by (simp add: acks_def)
  qed
qed

lemma rid_mark: "map rid (trows (fst (sql_mark_ack_update keys st t))) = map rid (trows t)"
  by (simp add: sql_mark_ack_update_def comp_def cong: map_cong)

lemma has_status_delete: "has_status keys st t \<Longrightarrow> has_status keys st (sql_delete ks t)"
  by (auto simp: has_status_def sql_delete_def list_all_iff)

lemma distinct_delete:
  "distinct (map rid (trows t)) \<Longrightarrow> distinct (map rid (trows (sql_delete ks t)))"
  by (simp add: sql_delete_def distinct_map_filter)

lemma delete_result:
  "delete now keys s = con now (fst (con now s), sql_delete keys (snd (con now s)))"
  by (simp add: delete_def split: prod.splits)

lemma acks_result:
  "acks now keys st s =
     (case updates now keys st s of
        (s', Inl e) \<Rightarrow> (s', Inl e)
      | (s', Inr u) \<Rightarrow> ((if delete_on_ack (fst s') then delete now keys s' else s'), Inr ()))"
  by (auto simp: acks_def split: prod.splits sum.splits)

lemma acks_post:
  assumes st: "st \<noteq> unack" and ok: "snd (acks now keys st (q, t)) = Inr ()"
    and dr: "distinct (map rid (trows t))"
  shows "con_open (fst (fst (acks now keys st (q, t))))"
    and "has_status keys st (snd (fst (acks now keys st (q, t))))"
    and "distinct (map rid (trows (snd (fst (acks now keys st (q, t))))))"
    and "delete_on_ack (fst (fst (acks now keys st (q, t)))) \<Longrightarrow>
         rid ` set (trows (snd (fst (acks now keys st (q, t))))) \<inter> set keys = {}"
proof -
  let ?c = "con now (q, t)"
  let ?m = "fst (sql_mark_ack_update keys st (snd ?c))"
  let ?u = "con now (fst ?c, ?m)"
  let ?d = "con now (fst (con now ?u), sql_delete keys (snd (con now ?u)))"
  have n: "length (filter (\<lambda>r. rid r \<in> set keys) (trows (snd ?c))) = length keys"
    using ok by (simp add: snd_acks updates_result split: if_splits)
  have u: "updates now keys st (q, t) = (?u, Inr ())"
    using n by (simp add: updates_result)
  have a: "fst (acks now keys st (q, t)) = (if delete_on_ack (fst ?u) then ?d else ?u)"
    using u by (simp add: acks_result delete_result)
  have hu: "has_status keys st (snd ?u)"
    using has_status_con'[OF st has_status_mark] .
  have du: "distinct (map rid (trows (snd ?u)))"
    using dr by (simp add: distinct_con rid_mark)
  show "con_open (fst (fst (acks now keys st (q, t))))"
    unfolding a by (simp add: con_open_con)
  show "has_status keys st (snd (fst (acks now keys st (q, t))))"
    unfolding a using hu has_status_con'[OF st has_status_delete[OF has_status_con[OF st hu]]]
    by simp
  show "distinct (map rid (trows (snd (fst (acks now keys st (q, t))))))"
    unfolding a using du by (simp add: distinct_con distinct_delete)
  show "rid ` set (trows (snd (fst (acks now keys st (q, t))))) \<inter> set keys = {}"
    if "delete_on_ack (fst (fst (acks now keys st (q, t))))"
  proof -
    have "delete_on_ack (fst ?u)" using that unfolding a by (simp add: q_con split: if_splits)
    then have "fst (acks now keys st (q, t)) = ?d" using a by simp
    then show ?thesis by (auto simp: ids_con ids_delete)
  qed
qed

lemma disjoint_subset_empty: "A \<inter> K = {} \<Longrightarrow> K \<subseteq> A \<Longrightarrow> K = {}"
  by auto

lemma fewer_rows:
  "(n::nat) \<le> m \<Longrightarrow> ((if n \<noteq> m then Inl KeyError else Inr ()) = (Inl KeyError :: unit res)) = (n < m)"
  by auto

section \<open>Inserting records\<close>

lemma sql_timeout_id:
  "list_all (\<lambda>r. \<not> (rstatus r = unack \<and> rtimestamp r < c)) (trows t) \<Longrightarrow> sql_timeout c t = t"
proof -
  assume "list_all (\<lambda>r. \<not> (rstatus r = unack \<and> rtimestamp r < c)) (trows t)"
  then have "map (\<lambda>r. if rstatus r = unack \<and> rtimestamp r < c then r\<lparr>rstatus := ready\<rparr> else r) (trows t) = trows t"
    by (intro map_idI) (auto simp: list_all_iff)
  then show ?thesis by (simp add: sql_timeout_def)
qed

lemma settled_con: "settled now s \<Longrightarrow> con now s = s"
  by (cases s) (auto simp: settled_def con_def apply_timeout_def sql_timeout_id)

lemma swept_rows:
  "list_all (\<lambda>r. \<not> (rstatus r = unack \<and> rtimestamp r < c)) (trows (sql_timeout c t))"
  by (auto simp: sql_timeout_def list_all_iff AckStatus_defs)

lemma settled_after_con: "con_open (fst s) \<Longrightarrow> settled now (con now s)"
proof (cases s)
  case (Pair q t)
  assume "con_open (fst s)"
  then have o: "con_open q" using Pair by simp
  show ?thesis
  proof (cases "now - last_timeout_application q < timeout q")
    case True
    then show ?thesis using o Pair by (simp add: settled_def con_def apply_timeout_def)
  next
    case False
    then have "con now s = (q\<lparr>last_timeout_application := now, con_open := True\<rparr>,
                           sql_timeout (now - timeout q) t)"
      using o Pair by (simp add: con_def apply_timeout_def)
    then show ?thesis using swept_rows[of "now - timeout q" t] by (simp add: settled_def)
  qed
qed

lemma pop_columns_rest: "snd (pop_columns cols f) = filter (\<lambda>p. fst p \<notin> set cols) f"
proof (induction cols arbitrary: f)
  case Nil
  then show ?case by simp
next
  case (Cons c cs)
  have "AList.delete c f = filter (\<lambda>p. fst p \<noteq> c) f"
    by (induction f) auto
  then show ?case using Cons[of "AList.delete c f"]
    by (auto simp: case_prod_unfold intro: filter_cong)
qed

lemma pop_columns_vals:
  "distinct cols \<Longrightarrow>
   fst (pop_columns cols f) = map (\<lambda>c. case map_of f c of None \<Rightarrow> PNone | Some v \<Rightarrow> v) cols"
proof (induction cols arbitrary: f)
  case Nil
  then show ?case by simp
next
  case (Cons c cs)
  have "map (\<lambda>c'. case map_of (AList.delete c f) c' of None \<Rightarrow> PNone | Some v \<Rightarrow> v) cs
      = map (\<lambda>c'. case map_of f c' of None \<Rightarrow> PNone | Some v \<Rightarrow> v) cs"
    using Cons.prems by (intro map_cong) (auto simp: AList.delete_conv')
  then show ?case using Cons by (simp add: case_prod_unfold)
qed

lemma lookup_col_map: "c \<in> set cs \<Longrightarrow> lookup_col cs (map f cs) c = Some (f c)"
  by (induction cs) auto

lemma lookup_col_notin: "c \<notin> set cs \<Longrightarrow> lookup_col cs vs c = None"
  by (induction cs vs c rule: lookup_col.induct) auto

lemma con_fields:
  "columns (fst (con now s)) = columns (fst s)"
  "max_size (fst (con now s)) = max_size (fst s)"
  "tcols (snd (con now s)) = tcols (snd s)"
  "tunique (snd (con now s)) = tunique (snd s)"
  "tseq (snd (con now s)) = tseq (snd s)"
  by (cases s; auto simp: con_def apply_timeout_def sql_timeout_def split: prod.splits)+

lemma cell_user_col:
  "c \<notin> set reserved \<Longrightarrow> cell t r c = lookup_col (map fst (tcols t)) (rvals r) c"
  by (auto simp: cell_def reserved_def)




lemma puts_steps:
  assumes "items \<noteq> []" and "list_all isinstance_dict items"
    and "list_all (\<lambda>i. dict_items i \<noteq> []) items" and "max_size (fst s) = None"
    and "update_table_schema now (hd (flatten_array_columns (map dict_items items))) s = (s2, Inr ())"
    and "reorder_to_match_table_schema (columns (fst s2))
           (flatten_array_columns (map dict_items items)) = Inr rows"
  shows "puts now items s =
           (case insert_all now rows [] s2 of
              (s3, Inl e) \<Rightarrow> (s3, Inl e)
            | (s3, Inr keys) \<Rightarrow> (con now s3, Inr keys))"
  using assms by (simp add: puts_def max_size_block_def Let_def)



lemma scalar_bindable: "scalar v \<Longrightarrow> bindable v \<and> v \<noteq> PNone"
  by (cases v) simp_all

lemma bind_error_none: "list_all bindable vals \<Longrightarrow> bind_error vals = None"
  by (induction vals) simp_all




lemma unique_queue_con: "unique_queue c s \<Longrightarrow> unique_queue c (con now s)"
  by (simp add: unique_queue_def con_fields)




lemma fmt04_0: "fmt04 0 = ''0000''" 
  by code_simp


section \<open>Schema growth\<close>

lemma settled_unfold:
  "settled now (q, t) =
     (con_open q \<and>
      (now - last_timeout_application q < timeout q \<or>
       (last_timeout_application q = now \<and>
        list_all (\<lambda>r. \<not> (rstatus r = unack \<and> rtimestamp r < now - timeout q)) (trows t))))"
  by (simp add: settled_def)

lemma settled_add_column:
  "settled now (q, t) \<Longrightarrow> settled now (q\<lparr>columns := cs\<rparr>, add_column k ty t)"
  by (auto simp: settled_unfold add_column_def list_all_iff)

lemma settled_append_row:
  "settled now (q, t) \<Longrightarrow>
   settled now (q, t\<lparr>trows := trows t @ [\<lparr>rid = k, rtimestamp = ts, rstatus = inited, rvals = vs\<rparr>],
                     tseq := k'\<rparr>)"
  by (auto simp: settled_unfold list_all_iff AckStatus_defs)

lemma create_column_settled:
  assumes "settled now (q, t)" and "k \<notin> set (table_names t)" and "\<not> isinstance_dict v"
  shows "create_column now k v (q, t)
           = ((q\<lparr>columns := columns q @ [k]\<rparr>, add_column k (the_type v) t), Inr ())"
proof -
  obtain ty where ty: "column_type v = Inr ty" using assms(3) by (cases v) auto
  show ?thesis
    using assms(2) by (simp add: create_column_def ty settled_con[OF assms(1)]
        sql_create_column_def add_column_def the_type_def)
qed

lemma create_column_dict:
  "isinstance_dict v \<Longrightarrow> create_column now k v s = (s, Inl ValueError)"
  by (cases v) (simp_all add: create_column_def)

lemma in_step_add_column:
  "in_step (q, t) \<Longrightarrow> k \<notin> set (columns q) \<Longrightarrow> k \<notin> set reserved \<Longrightarrow>
   in_step (q\<lparr>columns := columns q @ [k]\<rparr>, add_column k ty t)"
  by (auto simp: in_step_def add_column_def)

lemma in_step_names:
  "in_step (q, t) \<Longrightarrow> k \<notin> set (columns q) \<Longrightarrow> k \<notin> set reserved \<Longrightarrow> k \<notin> set (table_names t)"
  by (auto simp: in_step_def table_names_def)

lemma update_table_schema_settled:
  "settled now s \<Longrightarrow> in_step s \<Longrightarrow>
   list_all (\<lambda>(k, v). k \<in> set (columns (fst s)) \<or> (k \<notin> set reserved \<and> \<not> isinstance_dict v)) first \<Longrightarrow>
   update_table_schema now first s = (add_columns first s, Inr ()) \<and>
   settled now (add_columns first s) \<and> in_step (add_columns first s)"
proof (induction first arbitrary: s)
  case Nil
  then show ?case by simp
next
  case (Cons kv rest)
  obtain k v where kv: "kv = (k, v)" by (cases kv)
  obtain q t where s: "s = (q, t)" by (cases s)
  show ?case
  proof (cases "k \<in> set (columns q)")
    case True
    have "list_all (\<lambda>(k, v). k \<in> set (columns (fst s)) \<or> (k \<notin> set reserved \<and> \<not> isinstance_dict v)) rest"
      using Cons.prems(3) by simp
    from Cons.IH[OF Cons.prems(1,2) this] show ?thesis using True by (simp add: kv s)
  next
    case False
    then have ok: "k \<notin> set reserved" "\<not> isinstance_dict v"
      using Cons.prems(3) by (simp_all add: kv s)
    let ?s' = "(q\<lparr>columns := columns q @ [k]\<rparr>, add_column k (the_type v) t)"
    have cc: "create_column now k v (q, t) = (?s', Inr ())"
      using create_column_settled[of now q t k v] Cons.prems(1,2) in_step_names[of q t k] False ok
      by (simp add: s)
    have st: "settled now ?s'" using settled_add_column Cons.prems(1) by (simp add: s)
    have ins: "in_step ?s'" using in_step_add_column[of q t k] Cons.prems(2) False ok by (simp add: s)
    have "list_all (\<lambda>(k, v). k \<in> set (columns (fst ?s')) \<or> (k \<notin> set reserved \<and> \<not> isinstance_dict v)) rest"
      using Cons.prems(3) by (auto simp: s list_all_iff)
    from Cons.IH[OF st ins this] show ?thesis using False cc by (simp add: kv s)
  qed
qed

lemma update_table_schema_dict:
  "settled now s \<Longrightarrow> in_step s \<Longrightarrow> distinct (map fst first) \<Longrightarrow>
   list_all (\<lambda>(k, v). k \<in> set (columns (fst s)) \<or> k \<notin> set reserved) first \<Longrightarrow>
   \<not> list_all (\<lambda>(k, v). k \<in> set (columns (fst s)) \<or> \<not> isinstance_dict v) first \<Longrightarrow>
   snd (update_table_schema now first s) = Inl ValueError"
proof (induction first arbitrary: s)
  case Nil
  then show ?case by simp
next
  case (Cons kv rest)
  obtain k v where kv: "kv = (k, v)" by (cases kv)
  obtain q t where s: "s = (q, t)" by (cases s)
  show ?case
  proof (cases "k \<in> set (columns q)")
    case True
    have a: "list_all (\<lambda>(k, v). k \<in> set (columns (fst s)) \<or> k \<notin> set reserved) rest"
      and b: "\<not> list_all (\<lambda>(k, v). k \<in> set (columns (fst s)) \<or> \<not> isinstance_dict v) rest"
      and c: "distinct (map fst rest)"
      using Cons.prems True by (simp_all add: kv s)
    from Cons.IH[OF Cons.prems(1,2) c a b] show ?thesis using True by (simp add: kv s)
  next
    case False
    show ?thesis
    proof (cases "isinstance_dict v")
      case True
      then show ?thesis using False by (simp add: kv s create_column_dict)
    next
      case nd: False
      have ok: "k \<notin> set reserved" using Cons.prems(4) False by (simp add: kv s)
      let ?s' = "(q\<lparr>columns := columns q @ [k]\<rparr>, add_column k (the_type v) t)"
      have cc: "create_column now k v (q, t) = (?s', Inr ())"
        using create_column_settled[of now q t k v] Cons.prems(1,2) in_step_names[of q t k] False ok nd
        by (simp add: s)
      have st: "settled now ?s'" using settled_add_column Cons.prems(1) by (simp add: s)
      have ins: "in_step ?s'" using in_step_add_column[of q t k] Cons.prems(2) False ok by (simp add: s)
      have krest: "k \<notin> fst ` set rest" using Cons.prems(3) by (simp add: kv)
      have a: "list_all (\<lambda>(k, v). k \<in> set (columns (fst ?s')) \<or> k \<notin> set reserved) rest"
        using Cons.prems(4) by (auto simp: s list_all_iff)
      have "\<exists>x \<in> set rest. fst x \<notin> set (columns q) \<and> isinstance_dict (snd x)"
        using Cons.prems(5) nd False by (simp add: s kv list_all_iff case_prod_unfold)
      then obtain x where x: "x \<in> set rest" "fst x \<notin> set (columns q)" "isinstance_dict (snd x)"
        by auto
      have "fst x \<noteq> k" using krest x(1) by auto
      then have "\<not> (case x of (k', v) \<Rightarrow> k' \<in> set (columns (fst ?s')) \<or> \<not> isinstance_dict v)"
        using x(2,3) by (simp add: case_prod_unfold)
      then have b: "\<not> list_all (\<lambda>(k, v). k \<in> set (columns (fst ?s')) \<or> \<not> isinstance_dict v) rest"
        using x(1) unfolding list_all_iff by (intro notI) (drule (1) bspec, simp)
      have c: "distinct (map fst rest)" using Cons.prems(3) by simp
      from Cons.IH[OF st ins c a b] show ?thesis using False cc by (simp add: kv s)
    qed
  qed
qed

lemma update_table_schema_known:
  "list_all (\<lambda>(k, v). k \<in> set (columns (fst s))) first \<Longrightarrow>
   update_table_schema now first s = (s, Inr ()) \<and> add_columns first s = s"
  by (induction first) (auto simp: case_prod_unfold)

lemma create_column_con:
  "con_open (fst s) \<Longrightarrow> \<not> isinstance_dict v \<Longrightarrow>
   create_column now k v (con now s) = create_column now k v s"
  by (cases v) (simp_all add: create_column_def con_con)

lemma update_table_schema_con:
  "con_open (fst s) \<Longrightarrow>
   list_all (\<lambda>(k, v). k \<in> set (columns (fst s)) \<or> \<not> isinstance_dict v) first \<Longrightarrow>
   \<not> list_all (\<lambda>(k, v). k \<in> set (columns (fst s))) first \<Longrightarrow>
   update_table_schema now first (con now s) = update_table_schema now first s"
proof (induction first)
  case Nil
  then show ?case by simp
next
  case (Cons kv rest)
  obtain k v where kv: "kv = (k, v)" by (cases kv)
  show ?case
  proof (cases "k \<in> set (columns (fst s))")
    case True
    then show ?thesis using Cons by (simp add: kv con_fields)
  next
    case False
    then have "\<not> isinstance_dict v" using Cons.prems(2) by (simp add: kv)
    then show ?thesis using False create_column_con[OF Cons.prems(1)] by (simp add: kv con_fields)
  qed
qed

lemma update_table_schema_con_snd:
  "con_open (fst s) \<Longrightarrow>
   snd (update_table_schema now first (con now s)) = snd (update_table_schema now first s)"
proof (induction first)
  case Nil
  then show ?case by simp
next
  case (Cons kv rest)
  obtain k v where kv: "kv = (k, v)" by (cases kv)
  show ?case
  proof (cases "k \<in> set (columns (fst s))")
    case True
    then show ?thesis using Cons by (simp add: kv con_fields)
  next
    case False
    show ?thesis
    proof (cases "isinstance_dict v")
      case True
      then show ?thesis using False by (simp add: kv con_fields create_column_dict)
    next
      case nd: False
      then show ?thesis
        using False create_column_con[OF Cons.prems(1) nd] by (simp add: kv con_fields)
    qed
  qed
qed

lemma insert_all_con:
  "con_open (fst s) \<Longrightarrow> rows \<noteq> [] \<Longrightarrow>
   insert_all now rows keys (con now s) = insert_all now rows keys s"
  by (cases rows) (simp_all add: con_con)

lemma lookup_col_self:
  "distinct cols \<Longrightarrow> length vals = length cols \<Longrightarrow>
   map (\<lambda>c. case lookup_col cols vals c of None \<Rightarrow> PNone | Some v \<Rightarrow> v) cols = vals"
proof (induction cols vals rule: list_induct2')
  case (4 c cs v vs)
  have t: "\<And>x. x \<in> set cs \<Longrightarrow> lookup_col (c # cs) (v # vs) x = lookup_col cs vs x"
    using 4(2) by auto
  have "map (\<lambda>c'. case lookup_col (c # cs) (v # vs) c' of None \<Rightarrow> PNone | Some x \<Rightarrow> x) cs
      = map (\<lambda>c'. case lookup_col cs vs c' of None \<Rightarrow> PNone | Some x \<Rightarrow> x) cs"
    by (rule map_cong[OF refl]) (simp only: t)
  also have "\<dots> = vs" using 4 by simp
  finally show ?case by simp
qed simp_all

lemma sql_insert_plain:
  assumes "tunique t = None" and "map fst (tcols t) = cols" and "distinct cols" and "cols \<noteq> []"
    and "length vals = length cols" and "list_all bindable vals"
  shows "sql_insert now cols vals t =
           Inr (t\<lparr>trows := trows t @ [\<lparr>rid = tseq t + 1, rtimestamp = now, rstatus = inited,
                                       rvals = vals\<rparr>], tseq := tseq t + 1\<rparr>, Some (tseq t + 1))"
  using assms lookup_col_self[of cols vals]
  by (simp add: sql_insert_def unique_conflict_def Let_def bind_error_none)

lemma upt_shift: "k # map (\<lambda>i. k + 1 + int i) [0..<n] = map (\<lambda>i. k + int i) [0..<Suc n]"
proof -
  have "map (\<lambda>i. k + int i) [0..<Suc n] = (k + int 0) # map (\<lambda>i. k + int (Suc i)) [0..<n]"
    by (simp only: map_upt_Suc)
  then show ?thesis by (simp add: add.assoc add.commute)
qed

lemma insert_all_settled:
  "settled now (q, t) \<Longrightarrow> tunique t = None \<Longrightarrow> map fst (tcols t) = columns q \<Longrightarrow>
   distinct (columns q) \<Longrightarrow> columns q \<noteq> [] \<Longrightarrow>
   list_all (\<lambda>vals. length vals = length (columns q) \<and> list_all bindable vals) rows \<Longrightarrow>
   insert_all now rows keys (q, t) =
     ((q, append_rows now rows t), Inr (keys @ map (\<lambda>i. tseq t + 1 + int i) [0..<length rows]))"
proof (induction rows arbitrary: t keys)
  case Nil
  then show ?case by simp
next
  case (Cons vals rows)
  let ?t' = "t\<lparr>trows := trows t @ [\<lparr>rid = tseq t + 1, rtimestamp = now, rstatus = inited,
                                    rvals = vals\<rparr>], tseq := tseq t + 1\<rparr>"
  have i: "sql_insert now (columns q) vals t = Inr (?t', Some (tseq t + 1))"
    using Cons.prems by (intro sql_insert_plain) simp_all
  have st: "settled now (q, ?t')" using settled_append_row[OF Cons.prems(1)] .
  have ih: "insert_all now rows (keys @ [tseq t + 1]) (q, ?t') =
     ((q, append_rows now rows ?t'),
      Inr ((keys @ [tseq t + 1]) @ map (\<lambda>i. tseq ?t' + 1 + int i) [0..<length rows]))"
    using Cons.prems by (intro Cons.IH[OF st]) simp_all
  have "(tseq t + 1) # map (\<lambda>i. (tseq t + 1) + 1 + int i) [0..<length rows]
          = map (\<lambda>i. (tseq t + 1) + int i) [0..<Suc (length rows)]"
    by (rule upt_shift)
  then have k: "(keys @ [tseq t + 1]) @ map (\<lambda>i. tseq ?t' + 1 + int i) [0..<length rows]
          = keys @ map (\<lambda>i. tseq t + 1 + int i) [0..<length (vals # rows)]"
    by simp
  show ?case
    using i ih unfolding k by (simp add: settled_con[OF Cons.prems(1)])
qed

lemma reorder_ok:
  "distinct cols \<Longrightarrow> list_all (\<lambda>f. fst ` set f \<subseteq> set cols) flat \<Longrightarrow>
   reorder_to_match_table_schema cols flat = Inr (map (\<lambda>f. map (lookup_or_none f) cols) flat)"
proof (induction flat)
  case Nil
  then show ?case by simp
next
  case (Cons f flat)
  have r: "snd (pop_columns cols f) = []"
    using Cons.prems(2) by (auto simp: pop_columns_rest filter_empty_conv)
  have v: "fst (pop_columns cols f) = map (lookup_or_none f) cols"
    using pop_columns_vals[OF Cons.prems(1)] by (simp add: lookup_or_none_def[abs_def])
  show ?case using Cons r v by (simp add: case_prod_unfold)
qed

lemma flatten_list_distinct:
  "distinct (map fst acc) \<Longrightarrow> distinct (map fst (flatten_list k xs i acc))"
  by (induction xs arbitrary: i acc) (simp_all add: AList.distinct_update)

lemma flatten_item_distinct:
  "distinct (map fst acc) \<Longrightarrow> distinct (map fst (flatten_item item acc))"
  by (induction item acc rule: flatten_item.induct)
     (simp_all add: AList.distinct_update flatten_list_distinct)

lemma add_columns_fields:
  "max_size (fst (add_columns first s)) = max_size (fst s)"
  "con_open (fst (add_columns first s)) = con_open (fst s)"
  "tunique (snd (add_columns first s)) = tunique (snd s)"
  "tseq (snd (add_columns first s)) = tseq (snd s)"
  "length (trows (snd (add_columns first s))) = length (trows (snd s))"
  by (induction first s rule: add_columns.induct; simp add: add_column_def)+

lemma add_columns_columns:
  "distinct (map fst first) \<Longrightarrow>
   columns (fst (add_columns first s))
     = columns (fst s) @ filter (\<lambda>k. k \<notin> set (columns (fst s))) (map fst first)"
proof (induction first s rule: add_columns.induct)
  case (1 s)
  then show ?case by simp
next
  case (2 k v rest s)
  show ?case
  proof (cases "k \<in> set (columns (fst s))")
    case True
    then show ?thesis using 2 by simp
  next
    case False
    have "filter (\<lambda>k'. k' \<notin> set (columns (fst s) @ [k])) (map fst rest)
            = filter (\<lambda>k'. k' \<notin> set (columns (fst s))) (map fst rest)"
      using 2(3) by (intro filter_cong) auto
    then show ?thesis using False 2 by simp
  qed
qed

lemma add_columns_prefix:
  "\<exists>more. tcols (snd (add_columns first s)) = tcols (snd s) @ more"
proof (induction first s rule: add_columns.induct)
  case (1 s)
  then show ?case by simp
next
  case (2 k v rest s)
  show ?case
  proof (cases "k \<in> set (columns (fst s))")
    case True
    then show ?thesis using 2 by simp
  next
    case False
    from 2(2)[OF False] obtain more where
      "tcols (snd (add_columns rest ((fst s)\<lparr>columns := columns (fst s) @ [k]\<rparr>,
                                    add_column k (the_type v) (snd s))))
         = tcols (snd s) @ (k, the_type v) # more"
      by (auto simp: add_column_def)
    then show ?thesis using False by simp
  qed
qed

lemma add_columns_sync:
  "columns (fst s) = map fst (tcols (snd s)) \<Longrightarrow>
   columns (fst (add_columns first s)) = map fst (tcols (snd (add_columns first s)))"
  by (induction first s rule: add_columns.induct) (simp_all add: add_column_def)

lemma add_columns_type:
  "columns (fst s) = map fst (tcols (snd s)) \<Longrightarrow> distinct (map fst first) \<Longrightarrow>
   (k, v) \<in> set first \<Longrightarrow> k \<notin> set (columns (fst s)) \<Longrightarrow>
   map_of (tcols (snd (add_columns first s))) k = Some (the_type v)"
proof (induction first s rule: add_columns.induct)
  case (1 s)
  then show ?case by simp
next
  case (2 k0 v0 rest s)
  let ?s' = "((fst s)\<lparr>columns := columns (fst s) @ [k0]\<rparr>, add_column k0 (the_type v0) (snd s))"
  have sync': "columns (fst ?s') = map fst (tcols (snd ?s'))"
    using 2(3) by (simp add: add_column_def)
  have d: "distinct (map fst rest)" and k0: "k0 \<notin> fst ` set rest" using 2(4) by simp_all
  show ?case
  proof (cases "(k, v) = (k0, v0)")
    case True
    obtain more where m: "tcols (snd (add_columns rest ?s')) = tcols (snd ?s') @ more"
      using add_columns_prefix by blast
    have "map_of (tcols (snd s)) k = None"
      using 2(3) 2(6) by (simp add: map_of_eq_None_iff)
    then have "map_of (tcols (snd ?s')) k = Some (the_type v)"
      using True by (simp add: add_column_def map_add_def)
    then have "map_of (tcols (snd (add_columns rest ?s'))) k = Some (the_type v)"
      unfolding m by (simp add: map_add_Some_iff)
    then show ?thesis using True 2(6) by simp
  next
    case False
    then have in_rest: "(k, v) \<in> set rest" using 2(5) by auto
    show ?thesis
    proof (cases "k0 \<in> set (columns (fst s))")
      case True
      then show ?thesis using 2(1)[OF True 2(3) d in_rest 2(6)] by simp
    next
      case nk: False
      have "k \<noteq> k0" using in_rest k0 by force
      then have "k \<notin> set (columns (fst ?s'))" using 2(6) by simp
      from 2(2)[OF nk sync' d in_rest this] show ?thesis using nk by simp
    qed
  qed
qed

lemma append_rows_fields:
  "tcols (append_rows now rows t) = tcols t"
  "tunique (append_rows now rows t) = tunique t"
  "tseq (append_rows now rows t) = tseq t + int (length rows)"
  "length (trows (append_rows now rows t)) = length (trows t) + length rows"
  by (induction rows arbitrary: t; simp)+

lemma append_rows_rows:
  "trows (append_rows now rows t) = trows t @ map (row_at now (tseq t) rows) [0..<length rows]"
proof (induction rows arbitrary: t)
  case Nil
  then show ?case by simp
next
  case (Cons vals rows)
  let ?t' = "t\<lparr>trows := trows t @ [\<lparr>rid = tseq t + 1, rtimestamp = now, rstatus = inited,
                                    rvals = vals\<rparr>], tseq := tseq t + 1\<rparr>"
  have sh: "map (row_at now (tseq t) (vals # rows)) [0..<Suc (length rows)]
          = row_at now (tseq t) (vals # rows) 0
            # map (\<lambda>i. row_at now (tseq t) (vals # rows) (Suc i)) [0..<length rows]"
    by (simp only: map_upt_Suc)
  have tl: "map (\<lambda>i. row_at now (tseq t) (vals # rows) (Suc i)) [0..<length rows]
          = map (row_at now (tseq ?t') rows) [0..<length rows]"
    by (rule map_cong[OF refl]) (simp add: add.assoc add.commute)
  have r0: "row_at now (tseq t) (vals # rows) 0
              = \<lparr>rid = tseq t + 1, rtimestamp = now, rstatus = inited, rvals = vals\<rparr>"
    by simp
  have "trows (append_rows now (vals # rows) t) = trows (append_rows now rows ?t')"
    by simp
  also have "\<dots> = trows ?t' @ map (row_at now (tseq ?t') rows) [0..<length rows]"
    by (rule Cons)
  also have "\<dots> = trows t @ map (row_at now (tseq t) (vals # rows)) [0..<Suc (length rows)]"
    unfolding sh tl r0 by simp
  finally show ?case by simp
qed

lemma append_rows_nth:
  "i < length rows \<Longrightarrow>
   trows (append_rows now rows t) ! (length (trows t) + i) = row_at now (tseq t) rows i"
  by (simp add: append_rows_rows del: row_at.simps)

lemma settled_append_rows:
  "settled now (q, t) \<Longrightarrow> settled now (q, append_rows now rows t)"
  by (induction rows arbitrary: t) (simp_all add: settled_append_row)

lemma in_step_con: "in_step s \<Longrightarrow> in_step (con now s)"
  by (simp add: in_step_def con_fields)

lemma bindable_lookup: "list_all bindable (map snd f) \<Longrightarrow> bindable (lookup_or_none f c)"
proof (cases "map_of f c")
  case None
  then show ?thesis by (simp add: lookup_or_none_def)
next
  case (Some v)
  assume a: "list_all bindable (map snd f)"
  from Some have "(c, v) \<in> set f" by (rule map_of_SomeD)
  then have "bindable v" using a by (force simp: list_all_iff)
  then show ?thesis using Some by (simp add: lookup_or_none_def)
qed

lemma puts_closed_form:
  assumes op: "con_open (fst s)" and ins: "in_step s" and nm: "max_size (fst s) = None"
    and nu: "tunique (snd s) = None"
    and i1: "items \<noteq> []" and i2: "list_all isinstance_dict items"
    and i3: "list_all (\<lambda>i. dict_items i \<noteq> []) items"
    and good: "list_all (\<lambda>(k, v). k \<in> set (columns (fst s)) \<or> (k \<notin> set reserved \<and> \<not> isinstance_dict v))
                 (hd (flat_items items))"
    and s2: "s2 = add_columns (hd (flat_items items)) (con now s)"
    and fields: "list_all (\<lambda>f. fst ` set f \<subseteq> set (columns (fst s2)) \<and> list_all bindable (map snd f))
                   (flat_items items)"
    and ne: "columns (fst s2) \<noteq> []"
    and rows: "rows = map (\<lambda>f. map (lookup_or_none f) (columns (fst s2))) (flat_items items)"
  shows "puts now items s =
           ((fst s2, append_rows now rows (snd s2)),
            Inr (map (\<lambda>i. tseq (snd s) + 1 + int i) [0..<length items]))"
proof -
  let ?first = "hd (flat_items items)"
  let ?s1 = "con now s"
  have st1: "settled now ?s1" using settled_after_con[OF op] .
  have ins1: "in_step ?s1" using in_step_con[OF ins] .
  have good1: "list_all (\<lambda>(k, v). k \<in> set (columns (fst ?s1)) \<or> (k \<notin> set reserved \<and> \<not> isinstance_dict v)) ?first"
    using good by (simp add: con_fields)
  from update_table_schema_settled[OF st1 ins1 good1]
  have up1: "update_table_schema now ?first ?s1 = (s2, Inr ())"
    and st2: "settled now s2" and ins2: "in_step s2"
    by (simp_all add: s2)
  have d2: "distinct (columns (fst s2))" and sync2: "map fst (tcols (snd s2)) = columns (fst s2)"
    using ins2 by (simp_all add: in_step_def)
  have nu2: "tunique (snd s2) = None" using nu by (simp add: s2 add_columns_fields con_fields)
  have sq2: "tseq (snd s2) = tseq (snd s)" by (simp add: s2 add_columns_fields con_fields)
  have len: "length rows = length items"
    by (simp add: rows flat_items_def flatten_array_columns_def)
  have rne: "rows \<noteq> []" using len i1 by auto
  have re: "reorder_to_match_table_schema (columns (fst s2)) (flat_items items) = Inr rows"
    unfolding rows using fields by (intro reorder_ok[OF d2]) (simp add: list_all_iff)
  have rowsok: "list_all (\<lambda>vals. length vals = length (columns (fst s2)) \<and> list_all bindable vals) rows"
    unfolding rows using fields bindable_lookup by (auto simp: list_all_iff)
  have ia: "insert_all now rows [] s2 =
     ((fst s2, append_rows now rows (snd s2)),
      Inr ([] @ map (\<lambda>i. tseq (snd s2) + 1 + int i) [0..<length rows]))"
    using insert_all_settled[of now "fst s2" "snd s2" rows "[]"] st2 nu2 sync2 d2 ne rowsok
    by simp
  have fin: "con now (fst s2, append_rows now rows (snd s2)) = (fst s2, append_rows now rows (snd s2))"
    using settled_con[OF settled_append_rows[of now "fst s2" "snd s2" rows]] st2 by simp
  show ?thesis
  proof (cases "list_all (\<lambda>(k, v). k \<in> set (columns (fst s))) ?first")
    case True
    then have k1: "list_all (\<lambda>(k, v). k \<in> set (columns (fst ?s1))) ?first" by (simp add: con_fields)
    have e: "s2 = ?s1" using update_table_schema_known[OF k1, of now] by (simp add: s2)
    have up: "update_table_schema now (hd (flatten_array_columns (map dict_items items))) s = (s, Inr ())"
      using update_table_schema_known[OF True, of now] by (simp add: flat_items_def)
    have re': "reorder_to_match_table_schema (columns (fst s))
                 (flatten_array_columns (map dict_items items)) = Inr rows"
      using re by (simp add: e con_fields flat_items_def)
    have "insert_all now rows [] s = insert_all now rows [] s2"
      using insert_all_con[OF op rne, of now "[]"] by (simp add: e)
    then show ?thesis
      unfolding puts_steps[OF i1 i2 i3 nm up re'] using ia fin by (simp add: sq2 len)
  next
    case False
    have nd: "list_all (\<lambda>(k, v). k \<in> set (columns (fst s)) \<or> \<not> isinstance_dict v) ?first"
      using good by (auto simp: list_all_iff)
    have up: "update_table_schema now (hd (flatten_array_columns (map dict_items items))) s = (s2, Inr ())"
      using update_table_schema_con[OF op nd False, of now] up1 by (simp add: flat_items_def)
    have re': "reorder_to_match_table_schema (columns (fst s2))
                 (flatten_array_columns (map dict_items items)) = Inr rows"
      using re by (simp add: flat_items_def)
    show ?thesis
      unfolding puts_steps[OF i1 i2 i3 nm up re'] using ia fin by (simp add: sq2 len)
  qed
qed

lemma puts_schema_error:
  assumes "items \<noteq> []" and "list_all isinstance_dict items"
    and "list_all (\<lambda>i. dict_items i \<noteq> []) items" and "max_size (fst s) = None"
    and "snd (update_table_schema now (hd (flat_items items)) s) = Inl e"
  shows "snd (puts now items s) = Inl e"
  using assms
  by (cases "update_table_schema now (hd (flat_items items)) s")
     (simp add: puts_def max_size_block_def Let_def flat_items_def)

lemma hd_flat_distinct: "items \<noteq> [] \<Longrightarrow> distinct (map fst (hd (flat_items items)))"
  by (cases items) (simp_all add: flat_items_def flatten_array_columns_def flatten_item_distinct)

lemma column_type_the_type: "\<not> isinstance_dict v \<Longrightarrow> column_type v = Inr (the_type v)"
  by (cases v) (simp_all add: the_type_def)

lemma bindable_not_dict: "bindable v \<Longrightarrow> \<not> isinstance_dict v"
  by (cases v) simp_all

lemma sql_insert_schema:
  "sql_insert now cols vals t = Inr (t', ret) \<Longrightarrow> tcols t' = tcols t"
  by (auto simp: sql_insert_def Let_def split: if_splits option.splits)

lemma insert_all_schema:
  "columns (fst (fst (insert_all now rows keys s))) = columns (fst s) \<and>
   tcols (snd (fst (insert_all now rows keys s))) = tcols (snd s)"
proof (induction rows arbitrary: keys s)
  case Nil
  then show ?case by simp
next
  case (Cons item rows)
  obtain q t where c: "con now s = (q, t)" by (cases "con now s")
  have qc: "columns q = columns (fst s)" and tc: "tcols t = tcols (snd s)"
    using con_fields(1,3)[of now s] by (simp_all add: c)
  show ?case
  proof (cases "sql_insert now (columns (fst s)) item t")
    case (Inl e)
    then show ?thesis by (simp add: c qc tc)
  next
    case (Inr p)
    obtain t' ret where p: "p = (t', ret)" by (cases p)
    have t': "tcols t' = tcols t" using sql_insert_schema Inr p by blast
    show ?thesis using Cons.IH[of _ "(q, t')"] by (simp add: c Inr p qc tc t')
  qed
qed

lemma puts_schema_kept:
  assumes i1: "items \<noteq> []" and i2: "list_all isinstance_dict items"
    and i3: "list_all (\<lambda>i. dict_items i \<noteq> []) items" and nm: "max_size (fst s) = None"
    and up: "update_table_schema now (hd (flat_items items)) s = (s2, Inr ())"
  shows "columns (fst (fst (puts now items s))) = columns (fst s2) \<and>
         tcols (snd (fst (puts now items s))) = tcols (snd s2)"
proof -
  let ?flat = "flatten_array_columns (map dict_items items)"
  have up': "update_table_schema now (hd ?flat) s = (s2, Inr ())"
    using up by (simp add: flat_items_def)
  show ?thesis
  proof (cases "reorder_to_match_table_schema (columns (fst s2)) ?flat")
    case (Inl e)
    then show ?thesis
      using i1 i2 i3 by (simp add: puts_def max_size_block_def nm Let_def up')
  next
    case (Inr rows)
    obtain s3 r3 where ia: "insert_all now rows [] s2 = (s3, r3)"
      by (cases "insert_all now rows [] s2")
    have k: "columns (fst s3) = columns (fst s2) \<and> tcols (snd s3) = tcols (snd s2)"
      using insert_all_schema[of now rows "[]" s2] by (simp add: ia)
    have p: "puts now items s =
           (case insert_all now rows [] s2 of
              (s3, Inl e) \<Rightarrow> (s3, Inl e)
            | (s3, Inr keys) \<Rightarrow> (con now s3, Inr keys))"
      by (rule puts_steps[OF i1 i2 i3 nm up' Inr])
    show ?thesis using k by (cases r3) (simp_all add: p ia con_fields)
  qed
qed

lemma schema_grown:
  assumes op: "con_open (fst s)" and ins: "in_step s" and nm: "max_size (fst s) = None"
    and i1: "items \<noteq> []" and i2: "list_all isinstance_dict items"
    and i3: "list_all (\<lambda>i. dict_items i \<noteq> []) items"
    and good: "list_all (\<lambda>(k, v). k \<in> set (columns (fst s)) \<or> (k \<notin> set reserved \<and> \<not> isinstance_dict v))
                 (hd (flat_items items))"
  shows "columns (fst (fst (puts now items s)))
           = columns (fst (add_columns (hd (flat_items items)) (con now s))) \<and>
         tcols (snd (fst (puts now items s)))
           = tcols (snd (add_columns (hd (flat_items items)) (con now s)))"
proof -
  let ?first = "hd (flat_items items)"
  let ?s1 = "con now s"
  have st1: "settled now ?s1" using settled_after_con[OF op] .
  have ins1: "in_step ?s1" using in_step_con[OF ins] .
  have good1: "list_all (\<lambda>(k, v). k \<in> set (columns (fst ?s1)) \<or> (k \<notin> set reserved \<and> \<not> isinstance_dict v)) ?first"
    using good by (simp add: con_fields)
  from update_table_schema_settled[OF st1 ins1 good1]
  have up1: "update_table_schema now ?first ?s1 = (add_columns ?first ?s1, Inr ())" by simp
  show ?thesis
  proof (cases "list_all (\<lambda>(k, v). k \<in> set (columns (fst s))) ?first")
    case True
    then have k1: "list_all (\<lambda>(k, v). k \<in> set (columns (fst ?s1))) ?first" by (simp add: con_fields)
    have e: "add_columns ?first ?s1 = ?s1" using update_table_schema_known[OF k1, of now] by simp
    have up: "update_table_schema now ?first s = (s, Inr ())"
      using update_table_schema_known[OF True, of now] by simp
    show ?thesis using puts_schema_kept[OF i1 i2 i3 nm up] by (simp add: e con_fields)
  next
    case False
    have nd: "list_all (\<lambda>(k, v). k \<in> set (columns (fst s)) \<or> \<not> isinstance_dict v) ?first"
      using good by (auto simp: list_all_iff)
    have up: "update_table_schema now ?first s = (add_columns ?first ?s1, Inr ())"
      using update_table_schema_con[OF op nd False, of now] up1 by simp
    show ?thesis using puts_schema_kept[OF i1 i2 i3 nm up] by simp
  qed
qed

lemma fits_bindable: "fits ty v \<Longrightarrow> bindable v"
  by (cases ty; cases v) simp_all

lemma batch_types_names:
  "columns (fst s) = map fst (tcols (snd s)) \<Longrightarrow>
   map fst (batch_types s items) = columns (fst s) @ new_fields s items"
  by (simp add: batch_types_def new_fields_def filter_map comp_def case_prod_unfold)

lemma fits_fields:
  assumes sy: "columns (fst s) = map fst (tcols (snd s))"
    and f: "list_all (\<lambda>f. list_all (\<lambda>(k, v). case map_of (batch_types s items) k of
                                        None \<Rightarrow> False | Some ty \<Rightarrow> fits ty v) f) flat"
  shows "list_all (\<lambda>f. fst ` set f \<subseteq> set (columns (fst s) @ new_fields s items)
                   \<and> list_all bindable (map snd f)) flat"
proof -
  have one: "k \<in> set (columns (fst s) @ new_fields s items) \<and> bindable v"
    if "case map_of (batch_types s items) k of None \<Rightarrow> False | Some ty \<Rightarrow> fits ty v" for k v
  proof -
    from that obtain ty where m: "map_of (batch_types s items) k = Some ty" and ft: "fits ty v"
      by (auto split: option.splits)
    have "k \<in> set (map fst (batch_types s items))"
      using map_of_SomeD[OF m] by (force simp: image_iff)
    then show ?thesis using batch_types_names[OF sy, of items] fits_bindable[OF ft] by simp
  qed
  show ?thesis using f one by (fastforce simp: list_all_iff)
qed

section \<open>Flattening and rebuilding lists\<close>

subsection \<open>Index names\<close>

lemma digit_table:
  "\<forall>d \<in> set [0..<10]. is_digit (digit_char d) \<and> digit_val (digit_char d) = d
       \<and> digit_char d \<noteq> CHR ''_'' \<and> digit_char d \<noteq> CHR ''-'' \<and> digit_char d \<noteq> CHR ''+''"
  by code_simp

lemma digit_char_props:
  assumes "d < 10"
  shows "is_digit (digit_char d)" and "digit_val (digit_char d) = d"
    and "digit_char d \<noteq> CHR ''_''" and "digit_char d \<noteq> CHR ''-''" and "digit_char d \<noteq> CHR ''+''"
  using digit_table assms by auto

lemma digits_props:
  "digits n \<noteq> [] \<and> list_all is_digit (digits n) \<and> CHR ''_'' \<notin> set (digits n)
     \<and> nat_of_digits (digits n) = n"
proof (induction n rule: digits.induct)
  case (1 n)
  show ?case
  proof (cases "n < 10")
    case True
    then show ?thesis
      using digit_char_props[OF True]
      by (subst (1 2 3 4) digits.simps) (simp add: nat_of_digits_def)
  next
    case False
    have m: "n mod 10 < 10" by simp
    have d: "digits n = digits (n div 10) @ [digit_char (n mod 10)]"
      using False by (subst digits.simps) simp
    show ?thesis
      unfolding d using 1[OF False] digit_char_props[OF m]
      by (auto simp: nat_of_digits_def)
  qed
qed

lemma is_digit_0: "is_digit (CHR ''0'')" "digit_val (CHR ''0'') = 0"
  by (simp_all add: is_digit_def digit_val_def)

lemma nat_of_digits_zeros: "nat_of_digits (replicate z (CHR ''0'') @ ds) = nat_of_digits ds"
  by (induction z) (simp_all add: nat_of_digits_def is_digit_0)

lemma fmt04_props:
  "fmt04 n \<noteq> []" "list_all is_digit (fmt04 n)" "CHR ''_'' \<notin> set (fmt04 n)"
  "nat_of_digits (fmt04 n) = n"
  using digits_props[of n]
  by (auto simp: fmt04_def nat_of_digits_zeros is_digit_0 list_all_iff)

lemma is_digit_not_sign: "is_digit c \<Longrightarrow> c \<noteq> CHR ''-'' \<and> c \<noteq> CHR ''+''"
  by (auto simp: is_digit_def)

lemma py_int_fmt04: "py_int (fmt04 n) = Some (int n)"
proof (cases "fmt04 n")
  case Nil
  then show ?thesis using fmt04_props(1) by simp
next
  case (Cons c cs)
  have "is_digit c" using fmt04_props(2)[of n] Cons by simp
  then have "c \<noteq> CHR ''-''" "c \<noteq> CHR ''+''" using is_digit_not_sign by auto
  moreover have "digit_string (c # cs)"
    using fmt04_props(1,2)[of n] Cons by (simp add: digit_string_def)
  moreover have "nat_of_digits (c # cs) = n" using fmt04_props(4)[of n] Cons by simp
  ultimately show ?thesis by (simp add: Cons)
qed

lemma split_us_no_us: "CHR ''_'' \<notin> set s \<Longrightarrow> split_us s = [s]"
  by (induction s) auto

lemma split_us_prefix:
  "CHR ''_'' \<notin> set k \<Longrightarrow> split_us (k @ CHR ''_'' # rest) = k # split_us rest"
  by (induction k) auto

lemma split_us_dim_name:
  "CHR ''_'' \<notin> set k \<Longrightarrow> split_us (dim_name k i) = [k, ''dim'', fmt04 i]"
proof -
  assume k: "CHR ''_'' \<notin> set k"
  have "dim_name k i = k @ CHR ''_'' # (''dim'' @ CHR ''_'' # fmt04 i)"
    by (simp add: dim_name_def)
  then show ?thesis
    using split_us_prefix[OF k] split_us_prefix[of "''dim''" "fmt04 i"]
      split_us_no_us[OF fmt04_props(3)]
    by simp
qed

lemma starts_with_append: "starts_with (p @ b) p"
  by (induction p) auto

lemma contains_append: "contains (a @ p @ b) p"
proof (induction a)
  case Nil
  show ?case using starts_with_append[of p b] by (cases "p @ b") auto
next
  case (Cons c a)
  then show ?case by simp
qed

lemma contains_dim_name: "contains (dim_name k i) ''_dim_''"
  unfolding dim_name_def by (rule contains_append)

lemma dim_name_inj:
  assumes "CHR ''_'' \<notin> set k" and "CHR ''_'' \<notin> set k'" and "dim_name k i = dim_name k' j"
  shows "k = k' \<and> i = j"
proof -
  have "split_us (dim_name k i) = split_us (dim_name k' j)"
    using assms(3) by (rule arg_cong)
  then have "[k, ''dim'', fmt04 i] = [k', ''dim'', fmt04 j]"
    by (simp only: split_us_dim_name[OF assms(1)] split_us_dim_name[OF assms(2)])
  then have kk: "k = k'" and ff: "fmt04 i = fmt04 j" by simp_all
  have "py_int (fmt04 i) = py_int (fmt04 j)" using ff by (rule arg_cong)
  then have "int i = int j" by (simp only: py_int_fmt04 option.inject)
  then show ?thesis using kk by simp
qed

lemma reserved_no_dim: "contains k ''_dim_'' \<Longrightarrow> k \<notin> set reserved"
  by (auto simp: reserved_def)


subsection \<open>The round trip of one record\<close>

lemma update_fresh: "k \<notin> fst ` set al \<Longrightarrow> AList.update k v al = al @ [(k, v)]"
  by (induction al) auto

lemma update_last: "k \<notin> fst ` set al \<Longrightarrow> AList.update k v (al @ [(k, w)]) = al @ [(k, v)]"
  by (induction al) auto

lemma flatten_list_append:
  "distinct (map fst acc @ map (\<lambda>j. dim_name k (i + j)) [0..<length xs]) \<Longrightarrow>
   flatten_list k xs i acc = acc @ map (\<lambda>j. (dim_name k (i + j), xs ! j)) [0..<length xs]"
proof (induction xs arbitrary: i acc)
  case Nil
  then show ?case by simp
next
  case (Cons e es)
  have sh: "map (\<lambda>j. dim_name k (i + j)) [0..<Suc (length es)]
          = dim_name k i # map (\<lambda>j. dim_name k (Suc i + j)) [0..<length es]"
    by (simp only: map_upt_Suc) simp
  have sh2: "map (\<lambda>j. (dim_name k (i + j), (e # es) ! j)) [0..<Suc (length es)]
          = (dim_name k i, e) # map (\<lambda>j. (dim_name k (Suc i + j), es ! j)) [0..<length es]"
    by (simp only: map_upt_Suc) simp
  have d: "distinct (map fst acc @ dim_name k i # map (\<lambda>j. dim_name k (Suc i + j)) [0..<length es])"
    using Cons.prems by (simp only: length_Cons sh)
  then have fresh: "dim_name k i \<notin> fst ` set acc" by auto
  have d': "distinct (map fst (acc @ [(dim_name k i, e)]) @ map (\<lambda>j. dim_name k (Suc i + j)) [0..<length es])"
    using d by auto
  have "flatten_list k (e # es) i acc = flatten_list k es (Suc i) (acc @ [(dim_name k i, e)])"
    by (simp add: update_fresh[OF fresh])
  also have "\<dots> = (acc @ [(dim_name k i, e)]) @ map (\<lambda>j. (dim_name k (Suc i + j), es ! j)) [0..<length es]"
    by (rule Cons.IH[OF d'])
  finally show ?case by (simp only: length_Cons sh2 append_assoc append_Cons append_Nil)
qed

lemma flatten_item_append:
  "distinct (map fst (acc @ concat (map expand_field item))) \<Longrightarrow>
   flatten_item item acc = acc @ concat (map expand_field item)"
proof (induction item acc rule: flatten_item.induct)
  case (1 new_item)
  then show ?case by simp
next
  case (2 key xs rest new_item)
  have e: "expand_field (key, PList xs) = map (\<lambda>j. (dim_name key (0 + j), xs ! j)) [0..<length xs]"
    by simp
  have d: "distinct (map fst new_item @ map (\<lambda>j. dim_name key (0 + j)) [0..<length xs])"
    using 2(2) by (auto simp: comp_def)
  have fl: "flatten_list key xs 0 new_item = new_item @ expand_field (key, PList xs)"
    unfolding e by (rule flatten_list_append[OF d])
  have "distinct (map fst ((new_item @ expand_field (key, PList xs)) @ concat (map expand_field rest)))"
    using 2(2) by simp
  from 2(1)[unfolded fl, OF this] show ?case by (simp add: fl)
qed (simp_all add: update_fresh)

lemma expand_field_cases:
  "expand_field (k, v) =
     (if is_list v then map (\<lambda>i. (dim_name k i, list_elems v ! i)) [0..<length (list_elems v)]
      else [(k, v)])"
  by (cases v) simp_all

lemma base_name_dim: "CHR ''_'' \<notin> set k \<Longrightarrow> base_name (dim_name k i) = k"
  by (simp add: base_name_def contains_dim_name split_us_dim_name)

lemma expand_keys_base:
  assumes "array_field kv" and "x \<in> fst ` set (expand_field kv)"
  shows "base_name x = fst kv"
proof (cases kv)
  case (Pair k v)
  show ?thesis
  proof (cases "is_list v")
    case True
    then have "CHR ''_'' \<notin> set k" using assms(1) Pair by (simp add: array_field_def)
    moreover obtain i where "x = dim_name k i"
      using assms(2) True Pair by (auto simp: expand_field_cases)
    ultimately show ?thesis using Pair by (simp add: base_name_dim)
  next
    case False
    then have "\<not> contains k ''_dim_''" using assms(1) Pair by (simp add: array_field_def)
    moreover have "x = k" using assms(2) False Pair by (simp add: expand_field_cases)
    ultimately show ?thesis using Pair by (simp add: base_name_def)
  qed
qed

lemma expand_field_distinct:
  assumes "array_field kv"
  shows "distinct (map fst (expand_field kv))"
proof (cases kv)
  case (Pair k v)
  show ?thesis
  proof (cases "is_list v")
    case True
    then have k: "CHR ''_'' \<notin> set k" using assms Pair by (simp add: array_field_def)
    have "inj_on (dim_name k) (set [0..<length (list_elems v)])"
      using dim_name_inj[OF k k] by (auto simp: inj_on_def)
    then have "distinct (map (dim_name k) [0..<length (list_elems v)])"
      by (simp add: distinct_map)
    then show ?thesis using True Pair by (simp add: expand_field_cases comp_def)
  next
    case False
    then show ?thesis using Pair by (simp add: expand_field_cases)
  qed
qed

lemma expand_distinct:
  "array_record item \<Longrightarrow> distinct (map fst (concat (map expand_field item)))"
proof (induction item)
  case Nil
  then show ?case by simp
next
  case (Cons kv item)
  have af: "array_field kv" and rest: "array_record item" and fresh: "fst kv \<notin> fst ` set item"
    using Cons.prems by (auto simp: array_record_def)
  have disj: "fst ` set (expand_field kv) \<inter> fst ` set (concat (map expand_field item)) = {}"
  proof (rule ccontr)
    assume "fst ` set (expand_field kv) \<inter> fst ` set (concat (map expand_field item)) \<noteq> {}"
    then obtain x where x1: "x \<in> fst ` set (expand_field kv)"
      and x2: "x \<in> fst ` set (concat (map expand_field item))" by auto
    from x2 obtain kv' where kv': "kv' \<in> set item" "x \<in> fst ` set (expand_field kv')" by auto
    have "array_field kv'" using rest kv'(1) by (simp add: array_record_def list_all_iff)
    then have "base_name x = fst kv'" using kv'(2) by (rule expand_keys_base)
    moreover have "base_name x = fst kv" using af x1 by (rule expand_keys_base)
    ultimately show False using fresh kv'(1) by auto
  qed
  show ?case
    using expand_field_distinct[OF af] Cons.IH[OF rest] disj by simp
qed

lemma flatten_record:
  "array_record item \<Longrightarrow> flatten_item item [] = concat (map expand_field item)"
  using flatten_item_append[of "[]" item] expand_distinct by simp

lemma unflatten_dim_step:
  "CHR ''_'' \<notin> set k \<Longrightarrow>
   unflatten_fields ((dim_name k j, x) # rest) ni arrs =
     (case setitem (case map_of arrs k of None \<Rightarrow> [] | Some a \<Rightarrow> a) (int j) x of
        Inl e \<Rightarrow> Inl e
      | Inr arr \<Rightarrow> unflatten_fields rest ni (AList.update k arr arrs))"
  by (simp add: contains_dim_name split_us_dim_name py_int_fmt04)

lemma setitem_next: "setitem ys (int (length ys)) x = Inr (ys @ [x])"
proof -
  have "nat (int (length ys) + 1) - length ys = Suc 0" by simp
  then show ?thesis by (simp add: setitem_def expand_def Let_def)
qed

lemma map_of_last: "k \<notin> fst ` set al \<Longrightarrow> map_of (al @ [(k, w)]) k = Some w"
  by (induction al) auto

lemma unflatten_dim_loop:
  assumes k: "CHR ''_'' \<notin> set k" and fresh: "k \<notin> fst ` set arrs"
  shows "j \<le> length xs \<Longrightarrow>
    unflatten_fields (map (\<lambda>i. (dim_name k i, xs ! i)) [j..<length xs] @ rest) ni
        (arrs @ [(k, take j xs)])
      = unflatten_fields rest ni (arrs @ [(k, xs)])"
proof (induction "length xs - j" arbitrary: j)
  case 0
  then show ?case by simp
next
  case (Suc d)
  then have lt: "j < length xs" by simp
  have up: "[j..<length xs] = j # [Suc j..<length xs]" using lt by (rule upt_conv_Cons)
  have len: "length (take j xs) = j" using lt by simp
  have si: "setitem (take j xs) (int j) (xs ! j) = Inr (take (Suc j) xs)"
    using setitem_next[of "take j xs" "xs ! j"] lt by (simp add: len take_Suc_conv_app_nth)
  have d: "d = length xs - Suc j" using Suc(2) by simp
  have "unflatten_fields (map (\<lambda>i. (dim_name k i, xs ! i)) [j..<length xs] @ rest) ni
           (arrs @ [(k, take j xs)])
      = unflatten_fields (map (\<lambda>i. (dim_name k i, xs ! i)) [Suc j..<length xs] @ rest) ni
           (arrs @ [(k, take (Suc j) xs)])"
    unfolding up list.map append_Cons unflatten_dim_step[OF k] map_of_last[OF fresh] option.case si
    by (simp add: update_last[OF fresh])
  also have "\<dots> = unflatten_fields rest ni (arrs @ [(k, xs)])"
    using Suc(1)[OF d] lt by simp
  finally show ?case .
qed

lemma unflatten_dim_all:
  assumes k: "CHR ''_'' \<notin> set k" and fresh: "k \<notin> fst ` set arrs" and ne: "xs \<noteq> []"
  shows "unflatten_fields (map (\<lambda>i. (dim_name k i, xs ! i)) [0..<length xs] @ rest) ni arrs
           = unflatten_fields rest ni (arrs @ [(k, xs)])"
proof -
  have lt: "0 < length xs" using ne by simp
  have up: "[0..<length xs] = 0 # [Suc 0..<length xs]" using lt by (rule upt_conv_Cons)
  have none: "map_of arrs k = None" using fresh by (simp add: map_of_eq_None_iff)
  have si: "setitem [] (int 0) (xs ! 0) = Inr (take (Suc 0) xs)"
    using setitem_next[of "[]" "xs ! 0"] ne by (simp add: take_Suc_conv_app_nth)
  have "unflatten_fields (map (\<lambda>i. (dim_name k i, xs ! i)) [0..<length xs] @ rest) ni arrs
      = unflatten_fields (map (\<lambda>i. (dim_name k i, xs ! i)) [Suc 0..<length xs] @ rest) ni
           (arrs @ [(k, take (Suc 0) xs)])"
    unfolding up list.map append_Cons unflatten_dim_step[OF k] none option.case si
    by (simp add: update_fresh[OF fresh])
  also have "\<dots> = unflatten_fields rest ni (arrs @ [(k, xs)])"
    using unflatten_dim_loop[OF k fresh, of "Suc 0" xs rest ni] lt by simp
  finally show ?thesis .
qed

lemma unflatten_fields_record:
  "array_record item \<Longrightarrow> fst ` set ni \<inter> fst ` set item = {} \<Longrightarrow>
   fst ` set arrs \<inter> fst ` set item = {} \<Longrightarrow>
   unflatten_fields (concat (map expand_field item)) ni arrs =
     Inr (ni @ filter (\<lambda>kv. \<not> is_list (snd kv)) item,
          arrs @ map (\<lambda>kv. (fst kv, list_elems (snd kv))) (filter (\<lambda>kv. is_list (snd kv)) item))"
proof (induction item arbitrary: ni arrs)
  case Nil
  then show ?case by simp
next
  case (Cons kv item)
  obtain k v where kv: "kv = (k, v)" by (cases kv)
  have af: "array_field (k, v)" and rest: "array_record item" and fresh: "k \<notin> fst ` set item"
    using Cons.prems(1) by (auto simp: array_record_def kv)
  have kni: "k \<notin> fst ` set ni" and karr: "k \<notin> fst ` set arrs"
    using Cons.prems(2,3) by (auto simp: kv)
  show ?case
  proof (cases "is_list v")
    case True
    then have k: "CHR ''_'' \<notin> set k" and ne: "list_elems v \<noteq> []"
      using af by (simp_all add: array_field_def)
    have a: "fst ` set (arrs @ [(k, list_elems v)]) \<inter> fst ` set item = {}"
      using Cons.prems(3) fresh by (auto simp: kv)
    have b: "fst ` set ni \<inter> fst ` set item = {}" using Cons.prems(2) by auto
    show ?thesis
      using True unflatten_dim_all[OF k karr ne, of "concat (map expand_field item)" ni]
        Cons.IH[OF rest b a]
      by (simp add: kv expand_field_cases)
  next
    case False
    then have nc: "\<not> contains k ''_dim_''" using af by (simp add: array_field_def)
    have a: "fst ` set (ni @ [(k, v)]) \<inter> fst ` set item = {}"
      using Cons.prems(2) fresh by (auto simp: kv)
    have b: "fst ` set arrs \<inter> fst ` set item = {}" using Cons.prems(3) by auto
    show ?thesis
      using False nc Cons.IH[OF rest a b]
      by (simp add: kv expand_field_cases update_fresh[OF kni])
  qed
qed

lemma unflatten_arrays_ok:
  "list_all (\<lambda>kx. PNone \<notin> set (snd kx)) arrs \<Longrightarrow> distinct (map fst ni @ map fst arrs) \<Longrightarrow>
   unflatten_arrays arrs ni = Inr (ni @ map (\<lambda>kx. (fst kx, PList (snd kx))) arrs)"
proof (induction arrs arbitrary: ni)
  case Nil
  then show ?case by simp
next
  case (Cons kx arrs)
  obtain k xs where kx: "kx = (k, xs)" by (cases kx)
  have fresh: "k \<notin> fst ` set ni" using Cons.prems(2) by (auto simp: kx)
  have d: "distinct (map fst (ni @ [(k, PList xs)]) @ map fst arrs)"
    using Cons.prems(2) by (auto simp: kx)
  have n: "list_all (\<lambda>kx. PNone \<notin> set (snd kx)) arrs" "PNone \<notin> set xs"
    using Cons.prems(1) by (simp_all add: kx)
  show ?case using Cons.IH[OF n(1) d] n(2) by (simp add: kx update_fresh[OF fresh])
qed

lemma scalar_not_none: "list_all scalar xs \<Longrightarrow> PNone \<notin> set xs"
  by (induction xs) auto

lemma is_list_elems: "is_list v \<Longrightarrow> PList (list_elems v) = v"
  by (cases v) simp_all

lemma distinct_filter_split:
  "distinct (map fst item) \<Longrightarrow>
   distinct (map fst (filter (\<lambda>kv. \<not> P kv) item) @ map fst (filter P item))"
  by (induction item) (auto simp: image_iff)

lemma round_trip_pure:
  assumes "array_record item"
  shows "unflatten_item (flatten_item item []) = Inr (read_back item)"
proof -
  let ?sc = "filter (\<lambda>kv. \<not> is_list (snd kv)) item"
  let ?ls = "filter (\<lambda>kv. is_list (snd kv)) item"
  let ?arrs = "map (\<lambda>kv. (fst kv, list_elems (snd kv))) ?ls"
  have f: "unflatten_fields (flatten_item item []) [] [] = Inr (?sc, ?arrs)"
    using unflatten_fields_record[OF assms, of "[]" "[]"] by (simp add: flatten_record[OF assms])
  have nn: "list_all (\<lambda>kx. PNone \<notin> set (snd kx)) ?arrs"
    using assms scalar_not_none
    by (auto simp: array_record_def array_field_def list_all_iff)
  have d: "distinct (map fst ?sc @ map fst ?arrs)"
    using distinct_filter_split[of item "\<lambda>kv. is_list (snd kv)"] assms
    by (simp add: array_record_def comp_def)
  have bk: "map (\<lambda>kx. (fst kx, PList (snd kx))) ?arrs = ?ls"
    by (induction item) (auto simp: is_list_elems)
  show ?thesis
    unfolding unflatten_item_def f sum.case prod.case unflatten_arrays_ok[OF nn d] bk read_back_def
    by (rule refl)
qed

lemma read_back_map_of:
  assumes "distinct (map fst item)"
  shows "map_of (read_back item) = map_of item"
proof -
  have d: "distinct (map fst (read_back item))"
    using distinct_filter_split[OF assms, of "\<lambda>kv. is_list (snd kv)"] by (simp add: read_back_def)
  have s: "set (read_back item) = set item" by (auto simp: read_back_def)
  show ?thesis using map_of_inject_set[OF d assms] s by simp
qed

lemma foldl_update_fresh:
  "distinct (map fst (acc @ kvs)) \<Longrightarrow>
   foldl (\<lambda>d (k, v). AList.update k v d) acc kvs = acc @ kvs"
proof (induction kvs arbitrary: acc)
  case Nil
  then show ?case by simp
next
  case (Cons kv kvs)
  obtain k v where kv: "kv = (k, v)" by (cases kv)
  have fresh: "k \<notin> fst ` set acc" using Cons.prems by (auto simp: kv)
  have "distinct (map fst ((acc @ [(k, v)]) @ kvs))" using Cons.prems by (simp add: kv)
  from Cons.IH[OF this] show ?case by (simp add: kv update_fresh[OF fresh])
qed

lemma lookup_col_the:
  "distinct cols \<Longrightarrow> length vals = length cols \<Longrightarrow>
   map (\<lambda>c. the (lookup_col cols vals c)) cols = vals"
proof (induction cols vals rule: list_induct2')
  case (4 c cs v vs)
  have t: "\<And>x. x \<in> set cs \<Longrightarrow> lookup_col (c # cs) (v # vs) x = lookup_col cs vs x"
    using 4(2) by auto
  have "map (\<lambda>c'. the (lookup_col (c # cs) (v # vs) c')) cs
      = map (\<lambda>c'. the (lookup_col cs vs c')) cs"
    by (rule map_cong[OF refl]) (simp only: t)
  also have "\<dots> = vs" using 4 by simp
  finally show ?case by simp
qed simp_all

lemma con_no_unack:
  "list_all (\<lambda>r. rstatus r \<noteq> unack) (trows t) \<Longrightarrow> snd (con now (q, t)) = t"
proof -
  assume a: "list_all (\<lambda>r. rstatus r \<noteq> unack) (trows t)"
  have "\<And>c. sql_timeout c t = t"
    by (rule sql_timeout_id) (use a in \<open>auto simp: list_all_iff\<close>)
  then show ?thesis by (simp add: con_def apply_timeout_def)
qed

lemma sql_timeout_empty: "sql_timeout c empty_table = empty_table"
  by (simp add: sql_timeout_def empty_table_def)

lemma con_empty_table: "snd (con now (q, empty_table)) = empty_table"
  by (simp add: con_def apply_timeout_def sql_timeout_empty)

lemma init_fresh:
  assumes "init now0 None tmo None del None = Inr s0"
  shows "con_open (fst s0)" and "in_step s0" and "max_size (fst s0) = None"
    and "columns (fst s0) = []" and "snd s0 = empty_table"
proof -
  let ?q0 = "\<lparr>timeout = tmo, max_size = None, delete_on_ack = del, columns = [],
              con_open = False, last_timeout_application = 0, count_cache = None\<rparr>"
  let ?c2 = "con now0 (con now0 (?q0, empty_table))"
  have t2: "snd ?c2 = empty_table"
    using con_empty_table[of now0 "fst (con now0 (?q0, empty_table))"] con_empty_table[of now0 ?q0]
    by (metis prod.collapse)
  have tc: "tcols empty_table = []" by (simp add: empty_table_def)
  have s0: "s0 = con now0 ((fst ?c2)\<lparr>columns := []\<rparr>, empty_table)"
    using assms t2
    by (auto simp: init_def sql_create_def empty_table_def[symmetric] case_prod_unfold tc)
  show "con_open (fst s0)" unfolding s0 by (rule con_open_con)
  show "max_size (fst s0) = None" unfolding s0 by (simp add: con_fields)
  show "columns (fst s0) = []" unfolding s0 by (simp add: con_fields)
  show "snd s0 = empty_table" unfolding s0 by (rule con_empty_table)
  then show "in_step s0"
    using \<open>columns (fst s0) = []\<close> by (simp add: in_step_def empty_table_def)
qed

lemma expand_ok:
  "array_record item \<Longrightarrow>
   list_all (\<lambda>kv. fst kv \<notin> set reserved \<and> bindable (snd kv)) (concat (map expand_field item))"
proof -
  assume a: "array_record item"
  have "\<And>kv p. kv \<in> set item \<Longrightarrow> p \<in> set (expand_field kv) \<Longrightarrow>
          fst p \<notin> set reserved \<and> bindable (snd p)"
  proof -
    fix kv p assume kv: "kv \<in> set item" and p: "p \<in> set (expand_field kv)"
    obtain k v where e: "kv = (k, v)" by (cases kv)
    have af: "array_field (k, v)" using a kv e by (simp add: array_record_def list_all_iff)
    show "fst p \<notin> set reserved \<and> bindable (snd p)"
    proof (cases "is_list v")
      case True
      then obtain i where i: "i < length (list_elems v)" "p = (dim_name k i, list_elems v ! i)"
        using p e by (auto simp: expand_field_cases)
      have "scalar (list_elems v ! i)"
        using af True i(1) by (simp add: array_field_def list_all_length)
      then show ?thesis
        using i(2) scalar_bindable reserved_no_dim[OF contains_dim_name] by simp
    next
      case False
      then show ?thesis using af p e by (simp add: expand_field_cases array_field_def)
    qed
  qed
  then show ?thesis by (auto simp: list_all_iff)
qed

lemma expand_nonempty:
  "array_record item \<Longrightarrow> item \<noteq> [] \<Longrightarrow> concat (map expand_field item) \<noteq> []"
proof (cases item)
  case Nil
  assume "item \<noteq> []"
  then show ?thesis using Nil by simp
next
  case (Cons kv rest)
  assume a: "array_record item"
  obtain k v where e: "kv = (k, v)" by (cases kv)
  have "array_field (k, v)" using a Cons e by (simp add: array_record_def)
  then have "expand_field (k, v) \<noteq> []"
    by (cases "is_list v") (simp_all add: expand_field_cases array_field_def)
  then show ?thesis using Cons e by simp
qed

lemma lookup_self:
  "distinct (map fst f) \<Longrightarrow> map (lookup_or_none f) (map fst f) = map snd f"
proof -
  assume d: "distinct (map fst f)"
  have h: "\<And>p. p \<in> set f \<Longrightarrow> lookup_or_none f (fst p) = snd p"
  proof -
    fix p assume "p \<in> set f"
    then have "(fst p, snd p) \<in> set f" by simp
    from map_of_is_SomeI[OF d this] show "lookup_or_none f (fst p) = snd p"
      by (simp add: lookup_or_none_def)
  qed
  have "map (\<lambda>p. lookup_or_none f (fst p)) f = map snd f"
    by (rule map_cong[OF refl]) (rule h)
  then show ?thesis by (simp add: comp_def)
qed

lemma puts_fresh:
  assumes i: "init now0 None tmo None del None = Inr s0" and a: "array_record item"
    and ne: "item \<noteq> []"
  shows "snd (puts now1 [PDict item] s0) = Inr [1]"
    and "columns (fst (fst (puts now1 [PDict item] s0))) = map fst (flatten_item item [])"
    and "map fst (tcols (snd (fst (puts now1 [PDict item] s0)))) = map fst (flatten_item item [])"
    and "trows (snd (fst (puts now1 [PDict item] s0)))
           = [\<lparr>rid = 1, rtimestamp = now1, rstatus = inited, rvals = map snd (flatten_item item [])\<rparr>]"
proof -
  let ?F = "flatten_item item []"
  let ?s1 = "con now1 s0"
  note f = init_fresh[OF i]
  have fl: "flat_items [PDict item] = [?F]"
    by (simp add: flat_items_def flatten_array_columns_def)
  have FE: "?F = concat (map expand_field item)" using flatten_record[OF a] .
  have dF: "distinct (map fst ?F)" unfolding FE using expand_distinct[OF a] .
  have okF: "list_all (\<lambda>kv. fst kv \<notin> set reserved \<and> bindable (snd kv)) ?F"
    unfolding FE using expand_ok[OF a] .
  have neF: "?F \<noteq> []" unfolding FE using expand_nonempty[OF a ne] .
  define s2 where "s2 = add_columns (hd (flat_items [PDict item])) ?s1"
  define rows where
    "rows = map (\<lambda>f. map (lookup_or_none f) (columns (fst s2))) (flat_items [PDict item])"
  have cols2: "columns (fst s2) = map fst ?F"
    using add_columns_columns[OF dF, of ?s1] f(4) by (simp add: s2_def fl con_fields)
  have good: "list_all (\<lambda>(k, v). k \<in> set (columns (fst s0)) \<or> (k \<notin> set reserved \<and> \<not> isinstance_dict v))
                 (hd (flat_items [PDict item]))"
    using okF bindable_not_dict by (auto simp: fl list_all_iff)
  have fields: "list_all (\<lambda>f. fst ` set f \<subseteq> set (columns (fst s2)) \<and> list_all bindable (map snd f))
                   (flat_items [PDict item])"
    using okF by (auto simp: fl cols2 list_all_iff)
  have ne2: "columns (fst s2) \<noteq> []" using neF by (simp add: cols2)
  have nu: "tunique (snd s0) = None" using f(5) by (simp add: empty_table_def)
  have p: "puts now1 [PDict item] s0 =
           ((fst s2, append_rows now1 rows (snd s2)),
            Inr (map (\<lambda>i. tseq (snd s0) + 1 + int i) [0..<length [PDict item]]))"
    by (rule puts_closed_form[OF f(1) f(2) f(3) nu _ _ _ good s2_def fields ne2 rows_def])
       (use ne in simp_all)
  have rows: "rows = [map snd ?F]"
    unfolding rows_def fl cols2 list.map lookup_self[OF dF] by (rule refl)
  have sy1: "columns (fst ?s1) = map fst (tcols (snd ?s1))"
    using f(2) by (simp add: in_step_def con_fields)
  have sync2: "map fst (tcols (snd s2)) = map fst ?F"
    using add_columns_sync[OF sy1, of "hd (flat_items [PDict item])"] cols2 by (simp add: s2_def)
  have r2: "trows (snd s2) = []"
    using add_columns_fields(5)[of "hd (flat_items [PDict item])" ?s1] f(5)
    by (simp add: s2_def length_con empty_table_def)
  have q2: "tseq (snd s2) = 0"
    using f(5) by (simp add: s2_def add_columns_fields con_fields empty_table_def)
  show "snd (puts now1 [PDict item] s0) = Inr [1]"
    using f(5) by (simp add: p empty_table_def)
  show "columns (fst (fst (puts now1 [PDict item] s0))) = map fst ?F"
    by (simp add: p cols2)
  show "map fst (tcols (snd (fst (puts now1 [PDict item] s0)))) = map fst ?F"
    by (simp add: p append_rows_fields sync2)
  show "trows (snd (fst (puts now1 [PDict item] s0)))
           = [\<lparr>rid = 1, rtimestamp = now1, rstatus = inited, rvals = map snd ?F\<rparr>]"
    by (simp add: p rows r2 q2)
qed

lemma gets_single:
  assumes c: "columns q = cols" and tc: "map fst (tcols t) = cols" and d: "distinct cols"
    and nr: "set cols \<inter> set reserved = {}" and rs: "trows t = [r]" and st: "rstatus r = inited"
    and len: "length (rvals r) = length cols"
    and un: "unflatten_item (zip cols (rvals r)) = Inr item'" and n: "0 < n"
  shows "snd (gets now n 0 ack read_all (q, t)) = Inr ([rid r], [item'])"
proof -
  have nounack: "list_all (\<lambda>r. rstatus r \<noteq> unack) (trows t)"
    using rs st by (simp add: AckStatus_defs)
  have t1: "snd (con now (q, t)) = t" using con_no_unack[OF nounack] .
  have c1: "columns (fst (con now (q, t))) = cols" using c by (simp add: con_fields)
  have cells: "map (\<lambda>c. the (cell t r c)) cols = rvals r"
  proof -
    have u: "\<And>x. x \<in> set cols \<Longrightarrow> x \<notin> set reserved" using nr by auto
    have "map (\<lambda>c. the (cell t r c)) cols = map (\<lambda>c. the (lookup_col cols (rvals r) c)) cols"
      by (rule map_cong[OF refl]) (simp add: cell_user_col[OF u] tc)
    then show ?thesis using lookup_col_the[OF d len] by simp
  qed
  have sel: "sql_select cols read_all n 0 t = Inr [(rid r, rvals r)]"
    using n st by (auto simp: sql_select_def table_names_def tc rs cells AckStatus_defs)
  have s: "select now n 0 read_all (q, t) = (con now (q, t), Inr [(rid r, rvals r)])"
    using sel t1 c1 by (simp add: select_def case_prod_unfold)
  have pr: "process_rows cols [(rid r, rvals r)] = [zip cols (rvals r)]"
    using foldl_update_fresh[of "[]" "zip cols (rvals r)"] d len by (simp add: process_rows_def)
  have ua: "unflatten_array_columns [zip cols (rvals r)] = Inr [item']" using un by simp
  have cnt: "length (filter (\<lambda>x. rid x \<in> set [rid r]) (trows (snd (con now (con now (q, t)))))) = 1"
  proof -
    have "map rid (trows (snd (con now (con now (q, t))))) = [rid r]"
      using rs by (simp add: rid_con)
    then obtain x where "trows (snd (con now (con now (q, t)))) = [x]" "rid x = rid r" by auto
    then show ?thesis by simp
  qed
  have up: "snd (updates now [rid r] unack (con now (q, t))) = Inr ()"
    using cnt by (simp add: updates_result)
  show ?thesis
    using up
    by (cases "updates now [rid r] unack (con now (q, t))")
       (simp add: gets_def s c1 pr un)
qed

lemma fmt04_1: "fmt04 (Suc 0) = ''0001''"
  by code_simp


section \<open>The join of input and output\<close>

lemmas ioq_eval = ioq_init_def new_queue_opt_def new_queue_def truthy_def default_kwargs_def
  init_def sql_create_def load_def ioq_puts_def on_input_def on_output_def on_table_def
  size_ready_def execute_delta_def sql_delta_def ioq_gets_def joined_def sql_equal.simps

lemmas ex_ab = io_ab_def q_x_def t_x_def t_out_def db_ab_def empty_table_def

lemma table_names_swept: "table_names (swept now q t) = table_names t"
  by (simp add: table_names_def swept_def con_fields)

lemma the_neq: "truthy a \<Longrightarrow> truthy b \<Longrightarrow> a \<noteq> b \<Longrightarrow> the a \<noteq> the b"
  by (cases a; cases b) (auto simp: truthy_def)

lemma execute_delta_wired:
  assumes w: "wired (io, d) qi ti tout"
  shows "execute_delta now (io, d) =
     ((io\<lparr>input_q := Some (fst (con now (qi, ti)))\<rparr>,
       d(the (input_q_name io) \<mapsto> swept now qi ti)),
      Inr (swept now qi ti, unjoined io (swept now qi ti) tout))"
proof -
  from w have iq: "input_q io = Some qi" and ti: "d (the (input_q_name io)) = Some ti"
    and tout: "d (the (output_q_name io)) = Some tout"
    and tr: "truthy (input_q_name io)" "truthy (output_q_name io)"
    and ne: "input_q_name io \<noteq> output_q_name io"
    and ic: "input_q_id_column io \<in> set (table_names ti)"
    and oc: "output_q_id_column io \<in> set (table_names tout)"
    by (simp_all add: wired_def)
  have ne': "the (output_q_name io) \<noteq> the (input_q_name io)"
    using the_neq[OF tr ne] by simp
  obtain q' t' where c: "con now (qi, ti) = (q', t')" by (cases "con now (qi, ti)")
  have sw: "swept now qi ti = t'" by (simp add: swept_def c)
  have tn: "table_names t' = table_names ti" using table_names_swept[of now qi ti] by (simp add: sw)
  have oi: "on_input (\<lambda>a. (con now a, Inr ())) (io, d)
      = ((io\<lparr>input_q := Some q'\<rparr>, d(the (input_q_name io) \<mapsto> t')), Inr ())"
    by (simp add: on_input_def on_table_def iq ti c)
  have sd: "sql_delta (io\<lparr>input_q := Some q'\<rparr>) (d(the (input_q_name io) \<mapsto> t'))
      = Inr (t', unjoined io t' tout)"
    using tr ne ne' ic oc by (simp add: sql_delta_def tout tn unjoined_def)
  show ?thesis by (simp add: execute_delta_def oi sd sw c)
qed

lemma size_ready_wired:
  assumes w: "wired (io, d) qi ti tout"
  shows "snd (size_ready now (io, d)) = Inr (length (unjoined io (swept now qi ti) tout))"
proof -
  from w have iq: "input_q io = Some qi" by (simp add: wired_def)
  show ?thesis by (simp add: size_ready_def iq execute_delta_wired[OF w])
qed

lemma ioq_gets_wired:
  assumes w: "wired (io, d) qi ti tout"
    and g: "snd (ioq_gets now bs (io, d)) = Inr (Some (keys, items))"
  shows "keys = map rid (take (case bs of None \<Rightarrow> batch_size io | Some b \<Rightarrow> b)
                              (unjoined io (swept now qi ti) tout))"
proof -
  from w have iq: "input_q io = Some qi" by (simp add: wired_def)
  show ?thesis using g
    by (cases bs) (auto simp: ioq_gets_def iq execute_delta_wired[OF w] Let_def
        split: sum.splits prod.splits)
qed

lemma unjoined_empty:
  "(unjoined io ti tout = []) =
     (\<forall>r \<in> set (trows ti). rstatus r < unack \<longrightarrow>
         joined ti (input_q_id_column io) tout (output_q_id_column io) r)"
  by (auto simp: unjoined_def filter_empty_conv)

lemma joined_not_taken:
  assumes d: "distinct (map rid (trows ti))" and r: "r \<in> set (trows ti)"
    and j: "joined ti (input_q_id_column io) tout (output_q_id_column io) r"
  shows "rid r \<notin> set (map rid (take n (unjoined io ti tout)))"
proof
  assume "rid r \<in> set (map rid (take n (unjoined io ti tout)))"
  then obtain r' where r': "r' \<in> set (take n (unjoined io ti tout))" and e: "rid r' = rid r"
    by auto
  from r' have u: "r' \<in> set (unjoined io ti tout)" by (rule in_set_takeD)
  then have m: "r' \<in> set (trows ti)"
    and nj: "\<not> joined ti (input_q_id_column io) tout (output_q_id_column io) r'"
    by (simp_all add: unjoined_def)
  from d m r e have "r' = r" by (meson distinct_map inj_onD)
  with nj j show False by simp
qed

lemma updates_taken:
  assumes d: "distinct (map rid (trows t))"
    and k: "keys = map rid (take n (filter P (trows (snd (con now (q, t))))))"
  shows "snd (updates now' keys st (con now (q, t))) = Inr ()"
proof -
  let ?s = "con now (q, t)"
  let ?rows = "trows (snd (con now' ?s))"
  have dr: "distinct (map rid (trows (snd ?s)))" using d by (simp add: distinct_con)
  have dr': "distinct (map rid ?rows)" using dr by (simp add: distinct_con)
  have "distinct (map rid (filter P (trows (snd ?s))))" using dr by (rule distinct_map_filter)
  then have dk: "distinct keys" unfolding k by (simp add: take_map[symmetric])
  have "set keys \<subseteq> rid ` set (trows (snd ?s))" unfolding k
    by (auto dest!: in_set_takeD)
  then have sub: "set keys \<subseteq> rid ` set ?rows" by (simp add: ids_con)
  have "length (filter (\<lambda>r. rid r \<in> set keys) ?rows) = length keys"
    using returned_eq_iff[OF dr' dk] sub by simp
  then show ?thesis by (simp add: updates_result)
qed

lemma ioq_gets_ok:
  assumes w: "wired (io, d) qi ti tout" and dr: "distinct (map rid (trows ti))"
    and u: "unflatten_array_columns
              (row_dicts (swept now qi ti)
                 (take (case bs of None \<Rightarrow> batch_size io | Some b \<Rightarrow> b)
                    (unjoined io (swept now qi ti) tout))) = Inr items"
  shows "snd (ioq_gets now bs (io, d)) =
     Inr (Some (map rid (take (case bs of None \<Rightarrow> batch_size io | Some b \<Rightarrow> b)
                           (unjoined io (swept now qi ti) tout)), items))"
proof -
  from w have iq: "input_q io = Some qi" by (simp add: wired_def)
  define n where "n = (case bs of None \<Rightarrow> batch_size io | Some b \<Rightarrow> b)"
  define keys where "keys = map rid (take n (unjoined io (swept now qi ti) tout))"
  have k: "keys = map rid (take n (filter
       (\<lambda>r. \<not> joined (swept now qi ti) (input_q_id_column io) tout (output_q_id_column io) r
             \<and> rstatus r < unack) (trows (snd (con now (qi, ti))))))"
    by (simp add: keys_def unjoined_def swept_def)
  have up: "snd (updates now keys unack (con now (qi, ti))) = Inr ()"
    using updates_taken[OF dr k] .
  have c: "(fst (con now (qi, ti)), swept now qi ti) = con now (qi, ti)"
    by (simp add: swept_def)
  have oi: "snd (on_input (updates now keys unack)
       (io\<lparr>input_q := Some (fst (con now (qi, ti)))\<rparr>,
        d(the (input_q_name io) \<mapsto> swept now qi ti))) = Inr ()"
    using up by (auto simp: on_input_def on_table_def c split: prod.splits)
  have n': "(case bs of None \<Rightarrow> batch_size (fst (io, d)) | Some b \<Rightarrow> b) = n"
    by (cases bs) (simp_all add: n_def)
  have u': "unflatten_array_columns
     (map (\<lambda>r. foldl (\<lambda>d (c, v). AList.update c v d) []
                 (zip (map fst (tcols (swept now qi ti))) (rvals r)))
        (take n (unjoined io (swept now qi ti) tout))) = Inr items"
    using u by (simp add: row_dicts_def n_def)
  obtain s2 where s2: "on_input (updates now keys unack)
       (io\<lparr>input_q := Some (fst (con now (qi, ti)))\<rparr>,
        d(the (input_q_name io) \<mapsto> swept now qi ti)) = (s2, Inr ())"
    using oi by (metis prod.collapse)
  have "snd (ioq_gets now bs (io, d)) = Inr (Some (keys, items))"
    using u' s2 unfolding ioq_gets_def n_def keys_def
    by (cases bs) (simp_all add: iq execute_delta_wired[OF w] Let_def)
  then show ?thesis by (simp add: keys_def n_def)
qed


section \<open>The wrapped function of a stage\<close>

lemmas jq_eval = link_stage_def on_ioq_def on_tasks_def tasks_table_def func_def put_def
  task_row_status_def

lemmas ex_jq = jq_f_def empty_jq_def t_task_def fails_def copies_def

lemma one_row_status:
  assumes "distinct (map rid rows)" "k \<in> rid ` set rows"
    and "list_all (\<lambda>r. rid r \<notin> set [k] \<or> rstatus r = st) rows"
  shows "map rstatus (filter (\<lambda>r. rid r = k) rows) = [st]"
  using assms
proof (induction rows)
  case Nil
  then show ?case by simp
next
  case (Cons r rows)
  show ?case
  proof (cases "rid r = k")
    case True
    then have "k \<notin> rid ` set rows" using Cons.prems(1) by auto
    then have "filter (\<lambda>r. rid r = k) rows = []" by (auto simp: filter_empty_conv)
    then show ?thesis using True Cons.prems(3) by simp
  next
    case False
    then show ?thesis using Cons by auto
  qed
qed

lemma acks_present:
  assumes st: "st \<noteq> unack" and dr: "distinct (map rid (trows t))"
    and k: "k \<in> rid ` set (trows t)" and nd: "\<not> delete_on_ack q"
  shows "snd (acks now [k] st (q, t)) = Inr ()"
    and "map rid (trows (snd (fst (acks now [k] st (q, t))))) = map rid (trows t)"
    and "has_status [k] st (snd (fst (acks now [k] st (q, t))))"
    and "\<not> delete_on_ack (fst (fst (acks now [k] st (q, t))))"
proof -
  let ?c = "con now (q, t)"
  let ?m = "fst (sql_mark_ack_update [k] st (snd ?c))"
  let ?u = "con now (fst ?c, ?m)"
  have dc: "distinct (map rid (trows (snd ?c)))" using dr by (simp add: distinct_con)
  have sub: "set [k] \<subseteq> rid ` set (trows (snd ?c))" using k by (simp add: ids_con)
  have n: "length (filter (\<lambda>r. rid r \<in> set [k]) (trows (snd ?c))) = length [k]"
    using returned_eq_iff[OF dc, of "[k]"] sub by simp
  have u: "updates now [k] st (q, t) = (?u, Inr ())"
    using n by (simp add: updates_result)
  have ndu: "\<not> delete_on_ack (fst ?u)" using nd by (simp add: q_con)
  have a: "acks now [k] st (q, t) = (?u, Inr ())"
    using u ndu by (simp add: acks_result)
  show "snd (acks now [k] st (q, t)) = Inr ()" by (simp add: a)
  show "map rid (trows (snd (fst (acks now [k] st (q, t))))) = map rid (trows t)"
    by (simp add: a rid_con rid_mark)
  show "has_status [k] st (snd (fst (acks now [k] st (q, t))))"
    unfolding a using has_status_con'[OF st has_status_mark] by simp
  show "\<not> delete_on_ack (fst (fst (acks now [k] st (q, t))))"
    unfolding a using ndu by simp
qed

lemma on_ioq_keeps:
  assumes l: "map_of (links jq) name = Some l"
  shows "tdb (fst (on_ioq name f jq)) = tdb jq"
    and "\<exists>io'. map_of (links (fst (on_ioq name f jq))) name = Some (l\<lparr>ioqueues := io'\<rparr>)"
  using l by (auto simp: on_ioq_def update_conv' split: prod.splits)

lemma on_tasks_result:
  assumes l: "map_of (links jq) name = Some l" and t: "tdb jq (tasks_table name) = Some t"
  shows "on_tasks name f jq =
     (jq\<lparr>tdb := (tdb jq)(tasks_table name \<mapsto> snd (fst (f (tasks l, t)))),
         links := AList.update name (l\<lparr>tasks := fst (fst (f (tasks l, t)))\<rparr>) (links jq)\<rparr>,
      snd (f (tasks l, t)))"
  by (simp add: on_tasks_def l t split: prod.splits)

lemma task_row_status_eq:
  assumes "tdb jq (tasks_table name) = Some t" "distinct (map rid (trows t))"
    "k \<in> rid ` set (trows t)" "has_status [k] st t"
  shows "task_row_status jq name k = [st]"
  using assms one_row_status[of "trows t" k st]
  by (simp add: task_row_status_def has_status_def)

lemma func_outcome:
  assumes l: "map_of (links jq) name = Some l" and t: "tdb jq (tasks_table name) = Some t"
    and dr: "distinct (map rid (trows t))" and k: "k \<in> rid ` set (trows t)"
    and nd: "\<not> delete_on_ack (tasks l)"
  shows "task_row_status (fst (func now name k idx jq)) name k
           = [if snd (func now name k idx jq) = Inr () then ack_done else acked]"
    and "(\<forall>b. \<exists>e. inner_func l b idx = Inl e) \<Longrightarrow> snd (func now name k idx jq) \<noteq> Inr ()"
proof -
  let ?T = "tasks_table name"
  let ?a = "acks now [k] acked (tasks l, t)"
  define q1 where "q1 = fst (fst ?a)"
  define t1 where "t1 = snd (fst ?a)"
  define l1 where "l1 = l\<lparr>tasks := q1\<rparr>"
  define jq1 where "jq1 = jq\<lparr>tdb := (tdb jq)(?T \<mapsto> t1), links := AList.update name l1 (links jq)\<rparr>"
  have na: "acked \<noteq> unack" "ack_done \<noteq> unack" by (simp_all add: AckStatus_defs)
  have nad: "acked \<noteq> ack_done" by (simp add: AckStatus_defs)
  note A = acks_present[OF na(1) dr k nd, of now]
  have s1: "on_tasks name (acks now [k] acked) jq = (jq1, Inr ())"
    using A(1) by (simp add: on_tasks_result[OF l t] jq1_def l1_def q1_def t1_def)
  have ml1: "map_of (links jq1) name = Some l1" by (simp add: jq1_def update_conv')
  have r1: "map rid (trows t1) = map rid (trows t)" using A(2) by (simp add: t1_def)
  have d1: "distinct (map rid (trows t1))" using dr by (simp add: r1)
  have k1: "k \<in> rid ` set (trows t1)" using k r1 by (metis set_map)
  have h1: "has_status [k] acked t1" using A(3) by (simp add: t1_def)
  have nd1: "\<not> delete_on_ack q1" using A(4) by (simp add: q1_def)
  have mid: "task_row_status j name k = [acked]" if "tdb j = tdb jq1" for j
  proof -
    have "tdb j ?T = Some t1" using that by (simp add: jq1_def)
    then show ?thesis using task_row_status_eq[OF _ d1 k1 h1] by simp
  qed
  have fin: "snd (on_tasks name (acks now [k] ack_done) j) = Inr () \<and>
             task_row_status (fst (on_tasks name (acks now [k] ack_done) j)) name k = [ack_done]"
    if td: "tdb j = tdb jq1" and lj: "map_of (links j) name = Some l'" and tl: "tasks l' = q1"
    for j l'
  proof -
    have tj: "tdb j ?T = Some t1" using td by (simp add: jq1_def)
    note B = acks_present[OF na(2) d1 k1 nd1, of now]
    let ?b = "acks now [k] ack_done (q1, t1)"
    have res: "on_tasks name (acks now [k] ack_done) j =
       (j\<lparr>tdb := (tdb j)(?T \<mapsto> snd (fst ?b)),
           links := AList.update name (l'\<lparr>tasks := fst (fst ?b)\<rparr>) (links j)\<rparr>, snd ?b)"
      using on_tasks_result[OF lj tj, of "acks now [k] ack_done"] by (simp add: tl)
    have d2: "distinct (map rid (trows (snd (fst ?b))))" using d1 by (simp add: B(2))
    have k2: "k \<in> rid ` set (trows (snd (fst ?b)))" using k1 B(2) by (metis set_map)
    have "task_row_status (fst (on_tasks name (acks now [k] ack_done) j)) name k = [ack_done]"
      unfolding res by (rule task_row_status_eq[OF _ d2 k2 B(3)]) simp
    then show ?thesis using B(1) by (simp add: res)
  qed
  define G where "G = (if input_q (ioqueues l1) \<noteq> None
                       then on_ioq name (ioq_gets now None) jq1 else (jq1, Inr None))"
  have G1: "tdb (fst G) = tdb jq1"
    by (simp add: G_def on_ioq_keeps(1)[OF ml1])
  have G2: "\<exists>io'. map_of (links (fst G)) name = Some (l1\<lparr>ioqueues := io'\<rparr>)"
  proof (cases "input_q (ioqueues l1) \<noteq> None")
    case True
    then show ?thesis using on_ioq_keeps(2)[OF ml1, of "ioq_gets now None"] by (simp add: G_def)
  next
    case False
    have "l1 = l1\<lparr>ioqueues := ioqueues l1\<rparr>" by simp
    then show ?thesis using False ml1 by (metis G_def fst_conv)
  qed
  then obtain io2 where ml2: "map_of (links (fst G)) name = Some (l1\<lparr>ioqueues := io2\<rparr>)" ..
  obtain jq2 g where G: "G = (jq2, g)" by (cases G)
  have td2: "tdb jq2 = tdb jq1" using G1 by (simp add: G)
  have ml2': "map_of (links jq2) name = Some (l1\<lparr>ioqueues := io2\<rparr>)" using ml2 by (simp add: G)
  define P where "P out_rows = (if truthy (output_q_name (ioqueues l1))
                       then on_ioq name (ioq_puts now out_rows) jq2 else (jq2, Inr []))"
    for out_rows
  have P1: "tdb (fst (P rows)) = tdb jq1" for rows
    using td2 by (simp add: P_def on_ioq_keeps(1)[OF ml2'])
  have P2: "\<exists>l'. map_of (links (fst (P rows))) name = Some l' \<and> tasks l' = q1" for rows
  proof (cases "truthy (output_q_name (ioqueues l1))")
    case True
    then show ?thesis using on_ioq_keeps(2)[OF ml2', of "ioq_puts now rows"]
      by (auto simp: P_def l1_def)
  next
    case False
    then show ?thesis using ml2' by (simp add: P_def l1_def)
  qed
  have il: "inner_func l1 = inner_func l" by (simp add: l1_def)
  have f: "func now name k idx jq =
     (case g of
        Inl e \<Rightarrow> (jq2, Inl e)
      | Inr batch \<Rightarrow>
          (case inner_func l (map_option snd batch) idx of
             Inl e \<Rightarrow> (jq2, Inl e)
           | Inr out_rows \<Rightarrow>
               (case P out_rows of
                  (jq3, Inl e) \<Rightarrow> (jq3, Inl e)
                | (jq3, Inr ks) \<Rightarrow> on_tasks name (acks now [k] ack_done) jq3)))"
    unfolding func_def s1
    by (simp only: prod.case sum.case ml1 option.case il G_def[symmetric] G P_def)
  show "task_row_status (fst (func now name k idx jq)) name k
           = [if snd (func now name k idx jq) = Inr () then ack_done else acked]"
  proof (cases g)
    case (Inl e)
    then show ?thesis using mid[OF td2] by (simp add: f)
  next
    case (Inr batch)
    show ?thesis
    proof (cases "inner_func l (map_option snd batch) idx")
      case (Inl e)
      then show ?thesis using mid[OF td2] Inr by (simp add: f)
    next
      case out: (Inr out_rows)
      obtain jq3 p where P: "P out_rows = (jq3, p)" by (cases "P out_rows")
      have td3: "tdb jq3 = tdb jq1" using P1[of out_rows] by (simp add: P)
      obtain l' where l3: "map_of (links jq3) name = Some l'" "tasks l' = q1"
        using P2[of out_rows] by (auto simp: P)
      show ?thesis
      proof (cases p)
        case (Inl e)
        then show ?thesis using mid[OF td3] Inr out by (simp add: f P)
      next
        case ks: (Inr ks)
        have "func now name k idx jq = on_tasks name (acks now [k] ack_done) jq3"
          using Inr out ks by (simp add: f P)
        then show ?thesis using fin[OF td3 l3] by simp
      qed
    qed
  qed
  show "snd (func now name k idx jq) \<noteq> Inr ()" if r: "\<forall>b. \<exists>e. inner_func l b idx = Inl e"
  proof (cases g)
    case (Inl e)
    then show ?thesis by (simp add: f)
  next
    case (Inr batch)
    obtain e where "inner_func l (map_option snd batch) idx = Inl e" using r by blast
    then show ?thesis using Inr by (simp add: f)
  qed
qed

lemma status_sweep_rows:
  "unack \<notin> set (map rstatus (filter (\<lambda>r. rid r = k) rows)) \<Longrightarrow>
   map rstatus (filter (\<lambda>r. rid r = k)
       (map (\<lambda>r. if rstatus r = unack \<and> rtimestamp r < c then r\<lparr>rstatus := ready\<rparr> else r) rows))
     = map rstatus (filter (\<lambda>r. rid r = k) rows)"
  by (induction rows) (auto split: if_splits)

lemma status_con:
  assumes "unack \<notin> set (map rstatus (filter (\<lambda>r. rid r = k) (trows t)))"
  shows "map rstatus (filter (\<lambda>r. rid r = k) (trows (snd (con now (q, t)))))
           = map rstatus (filter (\<lambda>r. rid r = k) (trows t))"
  using status_sweep_rows[OF assms]
  by (simp add: con_def apply_timeout_def sql_timeout_def)

lemma sweep_keeps_status:
  assumes "unack \<notin> set (task_row_status j name k)"
  shows "task_row_status (fst (on_tasks name (\<lambda>a. (con now' a, Inr ())) j)) name k
           = task_row_status j name k"
proof (cases "map_of (links j) name")
  case None
  then show ?thesis by (simp add: on_tasks_def)
next
  case (Some l)
  show ?thesis
  proof (cases "tdb j (tasks_table name)")
    case None
    then show ?thesis using Some by (simp add: on_tasks_def)
  next
    case t: (Some t)
    have "unack \<notin> set (map rstatus (filter (\<lambda>r. rid r = k) (trows t)))"
      using assms by (simp add: task_row_status_def t)
    from status_con[OF this, of now' "tasks l"] show ?thesis
      by (simp add: on_tasks_result[OF Some t] task_row_status_def t)
  qed
qed


section \<open>Lemmas: the driver\<close>















section \<open>C2: the counters\<close>

lemma partition_rows:
  "length (filter (\<lambda>r. rstatus r < unack) rows)
     + length (filter (\<lambda>r. rstatus r \<ge> unack \<and> rstatus r < ack_failed) rows)
     + length (filter (\<lambda>r. rstatus r > unack) rows)
   = length rows + length (filter (\<lambda>r. unack < rstatus r \<and> rstatus r < ack_failed) rows)"
  by (induction rows) (auto simp: AckStatus_defs)

lemma counters_result:
  "count now s = (con now s, length (trows (snd (con now s))))"
  "free now s = (con now (con now s), sql_count (\<lambda>r. rstatus r < unack) (snd (con now s)))"
  "active now s = (con now (con now s),
      sql_count (\<lambda>r. rstatus r \<ge> unack \<and> rstatus r < ack_failed) (snd (con now s)))"
  "done_count now s = (con now (con now s), sql_count (\<lambda>r. rstatus r > unack) (snd (con now s)))"
  by (simp_all add: count_def free_def active_def done_count_def sql_count_def case_prod_unfold)

lemma run_a0: "init 0 None 300 None False None = Inr q_a0"
  by (simp add: init_def q_a0_def sql_create_def con_eval)

lemma run_a1: "puts 1 [PDict [(''a'', PInt 1)]] q_a0 = (q_a1, Inr [1])"
  by (simp add: q_a0_def q_a1_def puts_eval con_eval)

lemma run_a2: "gets 2 1 0 True False q_a1 = (q_a2, Inr ([1], [[(''a'', PInt 1)]]))"
  by (simp add: q_a1_def q_a2_def gets_eval con_eval)

lemma run_a3: "acks 3 [1] acked q_a2 = (q_a3, Inr ())"
  by (simp add: q_a2_def q_a3_def acks_def updates_def sql_mark_ack_update_def con_eval)

lemma run_a4:
  "count 4 q_a3 = (q_a3, 1)" "free 4 q_a3 = (q_a3, 0)" "active 4 q_a3 = (q_a3, 1)"
  "done_count 4 q_a3 = (q_a3, 1)"
  by (simp_all add: q_a3_def count_def free_def active_def done_count_def sql_count_def con_eval)

text \<open>
  C2, as amended. Read one after the other at one clock reading, the counters of any
  queue satisfy \<open>free + active + done = count + m\<close>, where \<open>m\<close> is the number of rows
  whose status lies strictly between \<open>unack\<close> (2) and \<open>ack_failed\<close> (9): a row in
  \<open>acked\<close> (5) is counted by \<open>active\<close> and by \<open>done\<close>. The partition is exact when there
  is no such row.
\<close>

theorem count_partition_amended:
  "(case count now s of (s1, c) \<Rightarrow>
      case free now s1 of (s2, f) \<Rightarrow>
        case active now s2 of (s3, a) \<Rightarrow>
          case done_count now s3 of (s4, d) \<Rightarrow>
            f + a + d = c + sql_count (\<lambda>r. unack < rstatus r \<and> rstatus r < ack_failed) (snd s4))"
proof -
  let ?s1 = "con now s"
  let ?s2 = "con now ?s1"
  have o1: "con_open (fst ?s1)" by (rule con_open_con)
  have s3: "con now ?s2 = ?s2" using con_con[OF o1] by simp
  have len: "length (trows (snd ?s1)) = length (trows (snd ?s2))" by (simp add: length_con)
  show ?thesis
    unfolding counters_result prod.case s3 len
    using partition_rows[of "trows (snd ?s2)"]
    by (simp add: sql_count_def)
qed

theorem count_partition_amended_witness:
  "snd (free 4 q_a3) + snd (active 4 q_a3) + snd (done_count 4 q_a3)
     = snd (count 4 q_a3) + sql_count (\<lambda>r. unack < rstatus r \<and> rstatus r < ack_failed) (snd q_a3)"
  using count_partition_amended [of 4 q_a3] by (simp add: run_a4)

text \<open>
  C2 as stated fails on a queue that is constructed, given one record, read and
  acknowledged: its single row is in \<open>acked\<close>, \<open>count\<close> is 1 and
  \<open>free + active + done\<close> is 2.
\<close>

theorem count_partition_counterexample:
  "init 0 None 300 None False None = Inr q_a0 \<and>
   puts 1 [PDict [(''a'', PInt 1)]] q_a0 = (q_a1, Inr [1]) \<and>
   gets 2 1 0 True False q_a1 = (q_a2, Inr ([1], [[(''a'', PInt 1)]])) \<and>
   acks 3 [1] acked q_a2 = (q_a3, Inr ()) \<and>
   snd (count 4 q_a3) \<noteq> snd (free 4 q_a3) + snd (active 4 q_a3) + snd (done_count 4 q_a3)"
proof -
  have ne: "snd (count 4 q_a3) \<noteq> snd (free 4 q_a3) + snd (active 4 q_a3) + snd (done_count 4 q_a3)"
    by (simp add: run_a4)
  show ?thesis by (intro conjI run_a0 run_a1 run_a2 run_a3 ne)
qed

section \<open>C7: the timeout sweep\<close>

text \<open>
  C7. \<^verbatim>\<open>apply_timeout\<close> does nothing on a queue whose connection is not open. On any
  queue it keeps the columns, the keys and the number of rows; a row whose status is
  not \<open>unack\<close> is left as it is, and a row that changes was \<open>unack\<close>, is older than the
  cutoff (the clock minus the timeout) and differs from before only in its status,
  now \<open>ready\<close>.
\<close>

theorem apply_timeout_safety:
  assumes "apply_timeout t1 t2 t3 (q, t) = (q', t')"
  shows "(\<not> con_open q \<longrightarrow> q' = q \<and> t' = t) \<and>
         tcols t' = tcols t \<and> tunique t' = tunique t \<and> tseq t' = tseq t \<and>
         length (trows t') = length (trows t) \<and>
         (\<forall>i < length (trows t).
            (rstatus (trows t ! i) \<noteq> unack \<longrightarrow> trows t' ! i = trows t ! i) \<and>
            (trows t' ! i \<noteq> trows t ! i \<longrightarrow>
               rstatus (trows t ! i) = unack \<and> rtimestamp (trows t ! i) < t2 - timeout q \<and>
               trows t' ! i = (trows t ! i)\<lparr>rstatus := ready\<rparr>))"
proof (cases "con_open q \<and> \<not> t1 - last_timeout_application q < timeout q")
  case False
  then have "q' = q \<and> t' = t" using assms by (auto simp: apply_timeout_def split: if_splits)
  then show ?thesis by simp
next
  case True
  then have "t' = sql_timeout (t2 - timeout q) t" using assms by (auto simp: apply_timeout_def)
  then show ?thesis using True by (simp add: sql_timeout_def)
qed

theorem apply_timeout_safety_witness:
  "apply_timeout 1000 1000 1000 (q_dup, t_sweep)
     = (q_dup\<lparr>last_timeout_application := 1000\<rparr>, t_swept) \<and>
   trows t_swept ! 2 = (trows t_sweep ! 2)\<lparr>rstatus := ready\<rparr> \<and>
   rstatus (trows t_sweep ! 2) = unack \<and>
   rtimestamp (trows t_sweep ! 2) < 1000 - timeout q_dup \<and>
   trows t_swept ! 3 = trows t_sweep ! 3 \<and>
   trows t_swept ! 4 = trows t_sweep ! 4"
proof -
  have run: "apply_timeout 1000 1000 1000 (q_dup, t_sweep)
     = (q_dup\<lparr>last_timeout_application := 1000\<rparr>, t_swept)"
    by (simp add: t_sweep_def t_swept_def q_dup_def apply_timeout_def sql_timeout_def AckStatus_defs)
  note T = apply_timeout_safety [OF run]
  have len: "(2::nat) < length (trows t_sweep)" "(4::nat) < length (trows t_sweep)"
    by (simp_all add: t_sweep_def)
  have ne: "trows t_swept ! 2 \<noteq> trows t_sweep ! 2"
    by (simp add: t_sweep_def t_swept_def)
  have st: "rstatus (trows t_sweep ! 4) \<noteq> unack"
    by (simp add: t_sweep_def AckStatus_defs)
  have a: "rstatus (trows t_sweep ! 2) = unack \<and>
        rtimestamp (trows t_sweep ! 2) < 1000 - timeout q_dup \<and>
        trows t_swept ! 2 = (trows t_sweep ! 2)\<lparr>rstatus := ready\<rparr>"
    using T len(1) ne by blast
  have b: "trows t_swept ! 4 = trows t_sweep ! 4"
    using T len(2) st by blast
  have c: "trows t_swept ! 3 = trows t_sweep ! 3"
    by (simp add: t_sweep_def t_swept_def)
  show ?thesis using run a b c by (simp only: simp_thms)
qed

section \<open>C8: acknowledging keys\<close>

text \<open>
  C8. For distinct keys on a table with unique row keys, \<^verbatim>\<open>acks(keys)\<close> succeeds
  exactly when every key has a row, whatever the status of those rows, and raises
  \<open>KeyError\<close> (the spec's MissingKeys) exactly when some key has none, which is exactly
  when the UPDATE returns fewer rows than there are keys. When the keys are still rows
  after a successful call, a second call succeeds too and changes nothing beyond what
  taking the connection does.
\<close>

theorem acks_error_behavior:
  assumes dk: "distinct keys" and dr: "distinct (map rid (trows t))"
  shows "(snd (acks now keys acked (q, t)) = Inr ()) = (set keys \<subseteq> rid ` set (trows t)) \<and>
         (snd (acks now keys acked (q, t)) = Inl KeyError) = (\<not> set keys \<subseteq> rid ` set (trows t)) \<and>
         (snd (acks now keys acked (q, t)) = Inl KeyError) =
           (snd (sql_mark_ack_update keys acked (snd (con now (q, t)))) < length keys) \<and>
         (set keys \<subseteq> rid ` set (trows t) \<and>
          set keys \<subseteq> rid ` set (trows (snd (fst (acks now keys acked (q, t))))) \<longrightarrow>
            acks now' keys acked (fst (acks now keys acked (q, t)))
              = (con now' (fst (acks now keys acked (q, t))), Inr ()))"
proof -
  let ?c = "con now (q, t)"
  let ?n = "length (filter (\<lambda>r. rid r \<in> set keys) (trows (snd ?c)))"
  have dc: "distinct (map rid (trows (snd ?c)))" using dr by (simp add: distinct_con)
  have iff: "(?n = length keys) = (set keys \<subseteq> rid ` set (trows t))"
    using returned_eq_iff[OF dc dk] ids_con[of now "(q, t)"] by simp
  have le: "?n \<le> length keys"
    using returned_le[OF dc, of keys] card_length[of keys] by linarith
  have r: "snd (acks now keys acked (q, t)) = (if ?n \<noteq> length keys then Inl KeyError else Inr ())"
    by (simp add: snd_acks updates_result)
  have 1: "(snd (acks now keys acked (q, t)) = Inr ()) = (set keys \<subseteq> rid ` set (trows t))"
    using r iff by simp
  have 2: "(snd (acks now keys acked (q, t)) = Inl KeyError) = (\<not> set keys \<subseteq> rid ` set (trows t))"
    using r iff by simp
  have 3: "(snd (acks now keys acked (q, t)) = Inl KeyError) =
           (snd (sql_mark_ack_update keys acked (snd (con now (q, t)))) < length keys)"
  proof -
    have m: "snd (sql_mark_ack_update keys acked (snd (con now (q, t)))) = ?n"
      by (simp only: sql_mark_ack_update_def snd_conv)
    show ?thesis unfolding r m by (rule fewer_rows[OF le])
  qed
  have 4: "acks now' keys acked (fst (acks now keys acked (q, t)))
              = (con now' (fst (acks now keys acked (q, t))), Inr ())"
    if sub: "set keys \<subseteq> rid ` set (trows t)"
      and still: "set keys \<subseteq> rid ` set (trows (snd (fst (acks now keys acked (q, t)))))"
  proof -
    have ok: "snd (acks now keys acked (q, t)) = Inr ()" using 1 sub by simp
    have st: "acked \<noteq> unack" by (simp add: AckStatus_defs)
    note p = acks_post[OF st ok dr]
    have "delete_on_ack (fst (fst (acks now keys acked (q, t)))) \<longrightarrow> keys = []"
    proof
      assume "delete_on_ack (fst (fst (acks now keys acked (q, t))))"
      from disjoint_subset_empty[OF p(4)[OF this] still] have "set keys = {}" .
      then show "keys = []" by simp
    qed
    from reack[OF st p(1) p(2) still dk p(3) this] show ?thesis .
  qed
  show ?thesis
    apply (intro conjI impI)
       apply (rule 1)
      apply (rule 2)
     apply (rule 3)
    apply (erule conjE)
    apply (erule (1) 4)
    done
qed

theorem acks_error_behavior_witness:
  "distinct [1, 2 :: int] \<and> distinct (map rid (trows t_ack)) \<and>
   set [1, 2] \<subseteq> rid ` set (trows t_ack) \<and>
   snd (acks 10 [1, 2] acked (q_dup, t_ack)) = Inr () \<and>
   set [1, 2] \<subseteq> rid ` set (trows (snd (fst (acks 10 [1, 2] acked (q_dup, t_ack))))) \<and>
   acks 20 [1, 2] acked (fst (acks 10 [1, 2] acked (q_dup, t_ack)))
     = (con 20 (fst (acks 10 [1, 2] acked (q_dup, t_ack))), Inr ()) \<and>
   snd (acks 10 [1, 7] acked (q_dup, t_ack)) = Inl KeyError"
proof -
  have h1: "distinct [1, 2 :: int]" and h1': "distinct [1, 7 :: int]" by simp_all
  have h2: "distinct (map rid (trows t_ack))" by (simp add: t_ack_def)
  have sub: "set [1, 2] \<subseteq> rid ` set (trows t_ack)" by (simp add: t_ack_def)
  have nsub: "\<not> set [1, 7] \<subseteq> rid ` set (trows t_ack)" by (simp add: t_ack_def)
  have still: "set [1, 2] \<subseteq> rid ` set (trows (snd (fst (acks 10 [1, 2] acked (q_dup, t_ack)))))"
    by (simp add: t_ack_def q_dup_def aq_eval)
  note T = acks_error_behavior [OF h1 h2, of 10 q_dup 20]
  note T' = acks_error_behavior [OF h1' h2, of 10 q_dup 20]
  have ok: "snd (acks 10 [1, 2] acked (q_dup, t_ack)) = Inr ()"
    using T sub by (simp only: simp_thms)
  have idem: "acks 20 [1, 2] acked (fst (acks 10 [1, 2] acked (q_dup, t_ack)))
     = (con 20 (fst (acks 10 [1, 2] acked (q_dup, t_ack))), Inr ())"
    using T sub still by (simp only: simp_thms)
  have bad: "snd (acks 10 [1, 7] acked (q_dup, t_ack)) = Inl KeyError"
    using T' nsub by (simp only: simp_thms)
  show ?thesis using h1 h2 sub ok still idem bad by (simp only: simp_thms)
qed

section \<open>C10: a key listed twice\<close>

text \<open>
  C10. With a key list that names some key more than once, \<^verbatim>\<open>updates\<close> and
  \<^verbatim>\<open>acks\<close> raise \<open>KeyError\<close> on every table with unique row keys, also when
  every listed key has a row: the UPDATE returns each row once, which is fewer rows
  than the list is long.
\<close>

theorem updates_duplicate_keys:
  assumes "\<not> distinct keys" and "distinct (map rid (trows t))"
  shows "snd (updates now keys st (q, t)) = Inl KeyError \<and>
         snd (acks now keys st (q, t)) = Inl KeyError"
proof -
  have "distinct (map rid (trows (snd (con now (q, t)))))"
    using assms(2) by (simp add: distinct_con)
  from returned_dup[OF this assms(1)]
  have "snd (updates now keys st (q, t)) = Inl KeyError"
    by (simp add: updates_result)
  then show ?thesis by (simp add: snd_acks)
qed

theorem updates_duplicate_keys_witness:
  "\<not> distinct [1, 1 :: int] \<and> distinct (map rid (trows t_dup)) \<and>
   set [1, 1] \<subseteq> rid ` set (trows t_dup) \<and>
   snd (updates 10 [1, 1] unack (q_dup, t_dup)) = Inl KeyError \<and>
   snd (acks 10 [1, 1] acked (q_dup, t_dup)) = Inl KeyError"
  using updates_duplicate_keys [of "[1, 1]" t_dup 10 unack q_dup]
        updates_duplicate_keys [of "[1, 1]" t_dup 10 acked q_dup]
  by (simp add: t_dup_def)

section \<open>C4: the unique column\<close>








section \<open>C6: schema growth on puts\<close>

lemma run_ab: "puts 1 items_ab q_a0 = (q_ab, Inl AssertionError)"
  by (simp add: items_ab_def q_a0_def q_ab_def puts_eval con_eval)

lemma flat_ac:
  "flat_items items_ac = [[(''a'', PInt 5), (''c'', PStr ''x'')], [(''c'', PStr ''y'')]]"
  by (simp add: flat_items_def items_ac_def flatten_array_columns_def)

lemma flat_d: "flat_items items_d = [[(''d'', PDict [(''e'', PInt 1)])]]"
  by (simp add: flat_items_def items_d_def flatten_array_columns_def)

lemma new_ac: "new_fields q_a1 items_ac = [''c'']"
  by (simp add: new_fields_def flat_ac) (simp add: q_a1_def)

lemma new_d: "new_fields q_a1 items_d = [''d'']"
  by (simp add: new_fields_def flat_d) (simp add: q_a1_def)

text \<open>
  C6, as amended. \<^verbatim>\<open>puts\<close> takes the schema from the first record of the batch
  only. The setting: a queue whose connection is open and whose cached column list is
  that of its table (\<open>in_step\<close>), no \<open>max_size\<close>, a table whose names are plain and
  whose cells are of the type of their column (\<open>sound_table\<close>); a batch of non-empty
  dictionaries; the new fields of the first (flattened) record have plain names, none
  of them reserved, and the table stays within 500 columns.

  \<^item> A nested mapping in a new field of the first record is rejected with \<open>ValueError\<close>.
  \<^item> Otherwise, whatever \<^verbatim>\<open>puts\<close> returns or raises afterwards, every new field of the
    first record has become a column, after the old ones and in the order of the
    record, of the type inferred from its value there (\<open>TEXT\<close>, \<open>REAL\<close>, \<open>INTEGER\<close>).
  \<^item> Without a UNIQUE column, when every field of every record is one of these columns
    and its value is null or of the type of that column (a 64-bit integer for
    \<open>INTEGER\<close>, a finite float for \<open>REAL\<close>, a string for \<open>TEXT\<close>), and the keys do not
    run out, the batch is inserted whole, with consecutive keys, and the row of each
    record holds its values under its fields and null elsewhere.
\<close>

theorem puts_schema_growth:
  assumes op: "con_open (fst s)" and ins: "in_step s" and st: "sound_table (snd s)"
    and nm: "max_size (fst s) = None"
    and i1: "items \<noteq> []" and i2: "list_all isinstance_dict items"
    and i3: "list_all (\<lambda>i. dict_items i \<noteq> []) items"
    and nres: "set (new_fields s items) \<inter> set reserved = {}"
    and pn: "list_all plain_name (new_fields s items)"
    and sz: "length (tcols (snd s)) + length (new_fields s items) \<le> 500"
  shows
   "(\<not> list_all (\<lambda>(k, v). k \<in> set (columns (fst s)) \<or> \<not> isinstance_dict v) (hd (flat_items items))
       \<longrightarrow> snd (puts now items s) = Inl ValueError) \<and>
    (list_all (\<lambda>(k, v). k \<in> set (columns (fst s)) \<or> \<not> isinstance_dict v) (hd (flat_items items))
       \<longrightarrow>
       columns (fst (fst (puts now items s))) = columns (fst s) @ new_fields s items \<and>
       map fst (tcols (snd (fst (puts now items s)))) = columns (fst s) @ new_fields s items \<and>
       (\<forall>(k, v) \<in> set (hd (flat_items items)). k \<in> set (new_fields s items) \<longrightarrow>
          map_option Inr (map_of (tcols (snd (fst (puts now items s)))) k) = Some (column_type v))) \<and>
    (tunique (snd s) = None \<and> columns (fst s) @ new_fields s items \<noteq> [] \<and>
     tseq (snd s) + int (length items) < 2 ^ 63 \<and>
     list_all (\<lambda>f. list_all (\<lambda>(k, v). case map_of (batch_types s items) k of
                                        None \<Rightarrow> False | Some ty \<Rightarrow> fits ty v) f)
       (flat_items items)
       \<longrightarrow>
       snd (puts now items s) = Inr (map (\<lambda>i. tseq (snd s) + 1 + int i) [0..<length items]) \<and>
       length (trows (snd (fst (puts now items s)))) = length (trows (snd s)) + length items \<and>
       (\<forall>i < length items.
          rid (trows (snd (fst (puts now items s))) ! (length (trows (snd s)) + i))
            = tseq (snd s) + 1 + int i \<and>
          rstatus (trows (snd (fst (puts now items s))) ! (length (trows (snd s)) + i)) = inited \<and>
          rtimestamp (trows (snd (fst (puts now items s))) ! (length (trows (snd s)) + i)) = now \<and>
          (\<forall>c \<in> set (columns (fst s) @ new_fields s items).
             cell (snd (fst (puts now items s)))
                  (trows (snd (fst (puts now items s))) ! (length (trows (snd s)) + i)) c
               = Some (lookup_or_none (flat_items items ! i) c))))"
proof (intro conjI impI)
  let ?first = "hd (flat_items items)"
  let ?s1 = "con now s"
  have st1: "settled now ?s1" using settled_after_con[OF op] .
  have ins1: "in_step ?s1" using in_step_con[OF ins] .
  have dfirst: "distinct (map fst ?first)" using hd_flat_distinct[OF i1] .
  have res: "list_all (\<lambda>(k, v). k \<in> set (columns (fst s)) \<or> k \<notin> set reserved) ?first"
    using nres by (auto simp: new_fields_def list_all_iff)
  have sy: "columns (fst s) = map fst (tcols (snd s))" using ins by (simp add: in_step_def)
  {
    assume bad: "\<not> list_all (\<lambda>(k, v). k \<in> set (columns (fst s)) \<or> \<not> isinstance_dict v) ?first"
    have "snd (update_table_schema now ?first ?s1) = Inl ValueError"
      using update_table_schema_dict[OF st1 ins1 dfirst] res bad by (simp add: con_fields)
    then have "snd (update_table_schema now ?first s) = Inl ValueError"
      using update_table_schema_con_snd[OF op, of now ?first] by simp
    then show "snd (puts now items s) = Inl ValueError"
      by (rule puts_schema_error[OF i1 i2 i3 nm])
  }
  {
    assume nd: "list_all (\<lambda>(k, v). k \<in> set (columns (fst s)) \<or> \<not> isinstance_dict v) ?first"
    have good: "list_all (\<lambda>(k, v). k \<in> set (columns (fst s)) \<or> (k \<notin> set reserved \<and> \<not> isinstance_dict v)) ?first"
      using res nd by (fastforce simp: list_all_iff)
    note g = schema_grown[OF op ins nm i1 i2 i3 good, of now]
    have cols2: "columns (fst (add_columns ?first ?s1)) = columns (fst s) @ new_fields s items"
      using add_columns_columns[OF dfirst, of ?s1] by (simp add: new_fields_def con_fields)
    have sy1: "columns (fst ?s1) = map fst (tcols (snd ?s1))" using ins1 by (simp add: in_step_def)
    show "columns (fst (fst (puts now items s))) = columns (fst s) @ new_fields s items"
      using g cols2 by simp
    show "map fst (tcols (snd (fst (puts now items s)))) = columns (fst s) @ new_fields s items"
      using g cols2 add_columns_sync[OF sy1, of ?first] by simp
    show "\<forall>(k, v) \<in> set ?first. k \<in> set (new_fields s items) \<longrightarrow>
          map_option Inr (map_of (tcols (snd (fst (puts now items s)))) k) = Some (column_type v)"
    proof (rule ballI)
      fix x assume xin: "x \<in> set ?first"
      obtain k v where x: "x = (k, v)" by (cases x)
      have kv: "(k, v) \<in> set ?first" using xin x by simp
      have "k \<in> set (new_fields s items) \<longrightarrow>
          map_option Inr (map_of (tcols (snd (fst (puts now items s)))) k) = Some (column_type v)"
      proof
        assume kn: "k \<in> set (new_fields s items)"
        have nk: "k \<notin> set (columns (fst ?s1))" using kn by (simp add: new_fields_def con_fields)
        then have "\<not> isinstance_dict v" using nd kv by (auto simp: list_all_iff con_fields)
        then have ct: "column_type v = Inr (the_type v)" by (rule column_type_the_type)
        show "map_option Inr (map_of (tcols (snd (fst (puts now items s)))) k) = Some (column_type v)"
          using add_columns_type[OF sy1 dfirst kv nk] ct g by simp
      qed
      then show "case x of (k, v) \<Rightarrow> k \<in> set (new_fields s items) \<longrightarrow>
          map_option Inr (map_of (tcols (snd (fst (puts now items s)))) k) = Some (column_type v)"
        by (simp add: x)
    qed
  }
  assume a0: "tunique (snd s) = None \<and> columns (fst s) @ new_fields s items \<noteq> [] \<and>
     tseq (snd s) + int (length items) < 2 ^ 63 \<and>
     list_all (\<lambda>f. list_all (\<lambda>(k, v). case map_of (batch_types s items) k of
                                        None \<Rightarrow> False | Some ty \<Rightarrow> fits ty v) f)
       (flat_items items)"
  have a: "tunique (snd s) = None \<and> columns (fst s) @ new_fields s items \<noteq> [] \<and>
     list_all (\<lambda>f. fst ` set f \<subseteq> set (columns (fst s) @ new_fields s items)
                   \<and> list_all bindable (map snd f)) (flat_items items)"
    using a0 fits_fields[OF sy, of items "flat_items items"] by simp
  define s2 where "s2 = add_columns ?first ?s1"
  define rows where "rows = map (\<lambda>f. map (lookup_or_none f) (columns (fst s2))) (flat_items items)"
  have cols2: "columns (fst s2) = columns (fst s) @ new_fields s items"
    using add_columns_columns[OF dfirst, of ?s1] by (simp add: s2_def new_fields_def con_fields)
  have flat_ne: "flat_items items \<noteq> []"
    using i1 by (simp add: flat_items_def flatten_array_columns_def)
  then have first_in: "?first \<in> set (flat_items items)" by simp
  have bfirst: "list_all bindable (map snd ?first)"
    using a first_in by (auto simp: list_all_iff)
  have good: "list_all (\<lambda>(k, v). k \<in> set (columns (fst s)) \<or> (k \<notin> set reserved \<and> \<not> isinstance_dict v)) ?first"
    using res bfirst bindable_not_dict by (fastforce simp: list_all_iff)
  have fields: "list_all (\<lambda>f. fst ` set f \<subseteq> set (columns (fst s2)) \<and> list_all bindable (map snd f))
                   (flat_items items)"
    using a by (simp add: cols2)
  have ne2: "columns (fst s2) \<noteq> []" using a by (simp add: cols2)
  have nu: "tunique (snd s) = None" using a by simp
  have p: "puts now items s =
           ((fst s2, append_rows now rows (snd s2)),
            Inr (map (\<lambda>i. tseq (snd s) + 1 + int i) [0..<length items]))"
    by (rule puts_closed_form[OF op ins nm nu i1 i2 i3 good s2_def fields ne2 rows_def])
  have ins2: "in_step s2"
    using update_table_schema_settled[OF st1 ins1] good by (simp add: s2_def con_fields)
  have sync2: "map fst (tcols (snd s2)) = columns (fst s2)" using ins2 by (simp add: in_step_def)
  have len2: "length (trows (snd s2)) = length (trows (snd s))"
    by (simp add: s2_def add_columns_fields length_con)
  have sq2: "tseq (snd s2) = tseq (snd s)" by (simp add: s2_def add_columns_fields con_fields)
  have lrows: "length rows = length items"
    by (simp add: rows_def flat_items_def flatten_array_columns_def)
  show "snd (puts now items s) = Inr (map (\<lambda>i. tseq (snd s) + 1 + int i) [0..<length items])"
    by (simp add: p)
  show "length (trows (snd (fst (puts now items s)))) = length (trows (snd s)) + length items"
    by (simp add: p append_rows_fields len2 lrows)
  show "\<forall>i < length items.
          rid (trows (snd (fst (puts now items s))) ! (length (trows (snd s)) + i))
            = tseq (snd s) + 1 + int i \<and>
          rstatus (trows (snd (fst (puts now items s))) ! (length (trows (snd s)) + i)) = inited \<and>
          rtimestamp (trows (snd (fst (puts now items s))) ! (length (trows (snd s)) + i)) = now \<and>
          (\<forall>c \<in> set (columns (fst s) @ new_fields s items).
             cell (snd (fst (puts now items s)))
                  (trows (snd (fst (puts now items s))) ! (length (trows (snd s)) + i)) c
               = Some (lookup_or_none (flat_items items ! i) c))"
  proof (intro allI impI)
    fix i assume i: "i < length items"
    then have ir: "i < length rows" by (simp add: lrows)
    have nth: "trows (snd (fst (puts now items s))) ! (length (trows (snd s)) + i)
                 = row_at now (tseq (snd s)) rows i"
      using append_rows_nth[OF ir, of now "snd s2"] by (simp add: p len2 sq2 del: row_at.simps)
    have ri: "rows ! i = map (lookup_or_none (flat_items items ! i)) (columns (fst s2))"
      using ir by (simp add: rows_def)
    have cells: "\<forall>c \<in> set (columns (fst s) @ new_fields s items).
             cell (snd (fst (puts now items s))) (row_at now (tseq (snd s)) rows i) c
               = Some (lookup_or_none (flat_items items ! i) c)"
    proof
      fix c assume c: "c \<in> set (columns (fst s) @ new_fields s items)"
      then have c2: "c \<in> set (columns (fst s2))" by (simp add: cols2)
      have "c \<notin> set reserved" using ins2 c2 by (auto simp: in_step_def)
      then show "cell (snd (fst (puts now items s))) (row_at now (tseq (snd s)) rows i) c
               = Some (lookup_or_none (flat_items items ! i) c)"
        using lookup_col_map[OF c2, of "lookup_or_none (flat_items items ! i)"]
        by (simp add: cell_user_col p append_rows_fields sync2 ri)
    qed
    show "rid (trows (snd (fst (puts now items s))) ! (length (trows (snd s)) + i))
            = tseq (snd s) + 1 + int i \<and>
          rstatus (trows (snd (fst (puts now items s))) ! (length (trows (snd s)) + i)) = inited \<and>
          rtimestamp (trows (snd (fst (puts now items s))) ! (length (trows (snd s)) + i)) = now \<and>
          (\<forall>c \<in> set (columns (fst s) @ new_fields s items).
             cell (snd (fst (puts now items s)))
                  (trows (snd (fst (puts now items s))) ! (length (trows (snd s)) + i)) c
               = Some (lookup_or_none (flat_items items ! i) c))"
      unfolding nth using cells by simp
  qed
qed

theorem puts_schema_growth_witness:
  "con_open (fst q_a1) \<and> in_step q_a1 \<and> sound_table (snd q_a1) \<and>
   max_size (fst q_a1) = None \<and> tunique (snd q_a1) = None \<and>
   list_all plain_name (new_fields q_a1 items_ac) \<and>
   snd (puts 5 items_ac q_a1) = Inr [2, 3] \<and>
   columns (fst (fst (puts 5 items_ac q_a1))) = [''a'', ''c''] \<and>
   map fst (tcols (snd (fst (puts 5 items_ac q_a1)))) = [''a'', ''c''] \<and>
   length (trows (snd (fst (puts 5 items_ac q_a1)))) = 3 \<and>
   snd (puts 5 items_d q_a1) = Inl ValueError"
proof -
  have h: "con_open (fst q_a1)" "in_step q_a1" "sound_table (snd q_a1)"
    "max_size (fst q_a1) = None" "tunique (snd q_a1) = None"
    by (simp_all add: q_a1_def in_step_def sound_table_def plain_name_def sql_keywords_def
          reserved_def)
  have ia: "items_ac \<noteq> []" "list_all isinstance_dict items_ac"
    "list_all (\<lambda>i. dict_items i \<noteq> []) items_ac"
    "set (new_fields q_a1 items_ac) \<inter> set reserved = {}"
    by (simp_all add: new_ac) (simp_all add: items_ac_def reserved_def)
  have pa: "list_all plain_name (new_fields q_a1 items_ac)"
    by (simp add: new_ac plain_name_def sql_keywords_def)
  have za: "length (tcols (snd q_a1)) + length (new_fields q_a1 items_ac) \<le> 500"
    by (simp add: new_ac) (simp add: q_a1_def)
  have id: "items_d \<noteq> []" "list_all isinstance_dict items_d"
    "list_all (\<lambda>i. dict_items i \<noteq> []) items_d"
    "set (new_fields q_a1 items_d) \<inter> set reserved = {}"
    by (simp_all add: new_d) (simp_all add: items_d_def reserved_def)
  have pd: "list_all plain_name (new_fields q_a1 items_d)"
    by (simp add: new_d plain_name_def sql_keywords_def)
  have zd: "length (tcols (snd q_a1)) + length (new_fields q_a1 items_d) \<le> 500"
    by (simp add: new_d) (simp add: q_a1_def)
  have v: "tseq (snd q_a1) = 1" "columns (fst q_a1) = [''a'']" "length (trows (snd q_a1)) = 1"
    "length items_ac = 2"
    by (simp_all add: q_a1_def items_ac_def)
  have bt: "batch_types q_a1 items_ac = [(''a'', INTEGER), (''c'', TEXT)]"
    by (simp add: batch_types_def flat_ac the_type_def) (simp add: q_a1_def)
  have nd: "list_all (\<lambda>(k, v). k \<in> set (columns (fst q_a1)) \<or> \<not> isinstance_dict v)
                (hd (flat_items items_ac))"
    by (simp add: flat_ac)
  have ok: "tunique (snd q_a1) = None \<and> columns (fst q_a1) @ new_fields q_a1 items_ac \<noteq> [] \<and>
     tseq (snd q_a1) + int (length items_ac) < 2 ^ 63 \<and>
     list_all (\<lambda>f. list_all (\<lambda>(k, v). case map_of (batch_types q_a1 items_ac) k of
                                        None \<Rightarrow> False | Some ty \<Rightarrow> fits ty v) f)
       (flat_items items_ac)"
    by (simp add: new_ac bt v h) (simp add: flat_ac)
  have bad: "\<not> list_all (\<lambda>(k, v). k \<in> set (columns (fst q_a1)) \<or> \<not> isinstance_dict v)
                (hd (flat_items items_d))"
    by (simp add: flat_d) (simp add: q_a1_def)
  note T = puts_schema_growth [OF h(1,2,3,4) ia pa za, of 5]
  note S = T[THEN conjunct2, THEN conjunct1, THEN mp, OF nd]
  note A = T[THEN conjunct2, THEN conjunct2, THEN mp, OF ok]
  note D = puts_schema_growth [OF h(1,2,3,4) id pd zd, of 5, THEN conjunct1, THEN mp, OF bad]
  have k: "snd (puts 5 items_ac q_a1) = Inr [2, 3]"
    using A[THEN conjunct1] by (simp add: v upt_rec)
  have c: "columns (fst (fst (puts 5 items_ac q_a1))) = [''a'', ''c'']"
    using S[THEN conjunct1] by (simp add: v new_ac)
  have m: "map fst (tcols (snd (fst (puts 5 items_ac q_a1)))) = [''a'', ''c'']"
    using S[THEN conjunct2, THEN conjunct1] by (simp add: v new_ac)
  have l: "length (trows (snd (fst (puts 5 items_ac q_a1)))) = 3"
    using A[THEN conjunct2, THEN conjunct1] by (simp add: v)
  show ?thesis by (intro conjI h pa k c m l D)
qed

text \<open>
  C6 as stated fails on \<^verbatim>\<open>puts([{'a': 1}, {'b': 2}])\<close>: the field \<open>b\<close> of the second
  record gets no column, the assertion of \<^verbatim>\<open>reorder_to_match_table_schema\<close> fails and
  nothing is inserted.
\<close>

theorem puts_schema_growth_counterexample:
  "init 0 None 300 None False None = Inr q_a0 \<and>
   puts 1 [PDict [(''a'', PInt 1)], PDict [(''b'', PInt 2)]] q_a0 = (q_ab, Inl AssertionError) \<and>
   ''b'' \<notin> set (columns (fst q_ab)) \<and> ''b'' \<notin> set (map fst (tcols (snd q_ab))) \<and>
   trows (snd q_ab) = []"
proof -
  have a: "''b'' \<notin> set (columns (fst q_ab))" "''b'' \<notin> set (map fst (tcols (snd q_ab)))"
    "trows (snd q_ab) = []"
    by (simp_all add: q_ab_def)
  show ?thesis by (intro conjI run_a0 run_ab[unfolded items_ab_def] a)
qed


section \<open>C5: lists written and read back\<close>

lemma array_record_vec: "array_record item_vec"
  by (simp add: array_record_def array_field_def item_vec_def reserved_def)

lemma run_us:
  "snd (gets 2 1 0 True False (fst (puts 1 [PDict item_us] q_a0))) = Inl ValueError"
  by (simp add: item_us_def q_a0_def puts_eval gets_eval con_eval fmt04_0
        digit_string_def is_digit_def nat_of_digits_def digit_val_def setitem_def expand_def)

lemma run_empty:
  "snd (gets 2 1 0 True False (fst (puts 1 [PDict item_empty] q_a0)))
     = Inr ([1], [[(''a'', PInt 1)]])"
  by (simp add: item_empty_def q_a0_def puts_eval gets_eval con_eval fmt04_0
        digit_string_def is_digit_def nat_of_digits_def digit_val_def setitem_def expand_def)

lemma run_gap:
  "snd (gets 3 2 0 True False
     (fst (puts 2 [PDict [(''v'', PList [PInt 7])]]
        (fst (puts 1 [PDict [(''v'', PList [PInt 1, PInt 2])]] q_a0)))))
     = Inl AssertionError"
  by (simp add: q_a0_def puts_eval gets_eval con_eval fmt04_0 fmt04_1
        digit_string_def is_digit_def nat_of_digits_def digit_val_def setitem_def expand_def)


text \<open>
  C5, as amended. On a queue that has just been created (no table before, no UNIQUE
  column, no \<open>max_size\<close>), take a record with distinct plain field names and at most
  500 values after flattening, in which every list field has a name without an
  underscore and holds at least one element, all of them strings, floats or ints of 64
  bits, and every other field holds such a value or \<^verbatim>\<open>None\<close> under a name that is
  neither reserved nor contains \<^verbatim>\<open>_dim_\<close>. Then \<^verbatim>\<open>puts\<close> of the record returns the
  key 1, and \<^verbatim>\<open>gets(n)\<close> with \<open>0 < n < 2\<^sup>6\<^sup>3\<close> returns that key with one record, which
  has the same fields with the same values (the list fields moved behind the others);
  in particular every list field is read back as the identical list.
\<close>

theorem array_round_trip:
  assumes a: "array_record item" and ne: "item \<noteq> []"
    and pn: "list_all plain_name (map fst item)"
    and sz: "length (flatten_item item []) \<le> 500"
    and i: "init now0 None tmo None del None = Inr s0" and n: "0 < n" and nb: "n < 2 ^ 63"
  shows "snd (puts now1 [PDict item] s0) = Inr [1] \<and>
         snd (gets now2 n 0 ack read_all (fst (puts now1 [PDict item] s0)))
           = Inr ([1], [read_back item]) \<and>
         map_of (read_back item) = map_of item \<and>
         (\<forall>v xs. (v, PList xs) \<in> set item \<longrightarrow> map_of (read_back item) v = Some (PList xs))"
proof -
  let ?F = "flatten_item item []"
  let ?s1 = "fst (puts now1 [PDict item] s0)"
  let ?r = "\<lparr>rid = 1, rtimestamp = now1, rstatus = inited, rvals = map snd ?F\<rparr>"
  note p = puts_fresh[OF i a ne, of now1]
  have dk: "distinct (map fst item)" using a by (simp add: array_record_def)
  have FE: "?F = concat (map expand_field item)" using flatten_record[OF a] .
  have dF: "distinct (map fst ?F)" unfolding FE using expand_distinct[OF a] .
  have nr: "set (map fst ?F) \<inter> set reserved = {}"
    using expand_ok[OF a] unfolding FE by (auto simp: list_all_iff)
  have un: "unflatten_item (zip (map fst ?F) (rvals ?r)) = Inr (read_back item)"
    using round_trip_pure[OF a] by (simp add: zip_map_fst_snd)
  have g: "snd (gets now2 n 0 ack read_all (fst ?s1, snd ?s1)) = Inr ([rid ?r], [read_back item])"
    by (rule gets_single[OF p(2) p(3) dF nr p(4) _ _ un n]) simp_all
  have m: "map_of (read_back item) = map_of item" using read_back_map_of[OF dk] .
  have l: "\<forall>v xs. (v, PList xs) \<in> set item \<longrightarrow> map_of (read_back item) v = Some (PList xs)"
    using map_of_is_SomeI[OF dk] by (simp add: m)
  show ?thesis using p(1) g m l by simp
qed

theorem array_round_trip_witness:
  "array_record item_vec \<and> item_vec \<noteq> [] \<and> list_all plain_name (map fst item_vec) \<and>
   length (flatten_item item_vec []) \<le> 500 \<and>
   init 0 None 300 None False None = Inr q_a0 \<and>
   snd (puts 1 [PDict item_vec] q_a0) = Inr [1] \<and>
   snd (gets 2 1 0 True False (fst (puts 1 [PDict item_vec] q_a0)))
     = Inr ([1], [read_back item_vec]) \<and>
   map_of (read_back item_vec) ''vec'' = Some (PList [PInt 1, PInt 2, PInt 3])"
proof -
  have ne: "item_vec \<noteq> []" by (simp add: item_vec_def)
  have pos: "0 < (1::nat)" and nb: "(1::nat) < 2 ^ 63" by simp_all
  have mem: "(''vec'', PList [PInt 1, PInt 2, PInt 3]) \<in> set item_vec"
    by (simp add: item_vec_def)
  have pn: "list_all plain_name (map fst item_vec)"
    by (simp add: item_vec_def plain_name_def sql_keywords_def)
  have sz: "length (flatten_item item_vec []) \<le> 500"
    by (simp add: item_vec_def)
  note T = array_round_trip[OF array_record_vec ne pn sz run_a0 pos nb, of 1 2 True False]
  note T1 = T[THEN conjunct1]
  note T2 = T[THEN conjunct2, THEN conjunct1]
  note T4 = T[THEN conjunct2, THEN conjunct2, THEN conjunct2, THEN spec, THEN spec, THEN mp, OF mem]
  show ?thesis by (intro conjI array_record_vec ne pn sz run_a0 T1 T2 T4)
qed

text \<open>
  C5 as stated fails for three kinds of lists of scalars. A list under a field name
  with an underscore is written, and reading it raises \<open>ValueError\<close>, the token after
  the first underscore being no number. An empty list is written as no column at all,
  and the record read back has no such field. A list shorter than one stored before
  under the same field leaves a null in its row, and reading raises \<open>AssertionError\<close>.
\<close>

theorem array_round_trip_counterexample:
  "snd (gets 2 1 0 True False (fst (puts 1 [PDict [(''my_vec'', PList [PInt 1])]] q_a0)))
     = Inl ValueError \<and>
   snd (gets 2 1 0 True False (fst (puts 1 [PDict [(''a'', PInt 1), (''v'', PList [])]] q_a0)))
     = Inr ([1], [[(''a'', PInt 1)]]) \<and>
   snd (gets 3 2 0 True False
     (fst (puts 2 [PDict [(''v'', PList [PInt 7])]]
        (fst (puts 1 [PDict [(''v'', PList [PInt 1, PInt 2])]] q_a0)))))
     = Inl AssertionError"
  using run_us run_empty run_gap by (simp only: item_us_def item_empty_def simp_thms)


section \<open>C1: rows with a partner in the output\<close>

lemma run_i0:
  "ioq_init 0 (Some ''a'') (Some ''b'') None None 1 default_kwargs Map.empty = Inr s_i0"
  by (simp add: s_i0_def ex_ab ioq_eval con_eval fun_eq_iff)

lemma run_i1:
  "load 1 [PDict [(''x'', PInt 1)], PDict [(''x'', PInt 2)]] s_i0 = (s_i1, Inr [1, 2])"
  by (simp add: s_i0_def s_i1_def ex_ab ioq_eval puts_eval con_eval fun_eq_iff)

lemma run_i2: "ioq_gets 2 None s_i1 = (s_i2, Inr (Some ([1], [[(''x'', PInt 1)]])))"
  by (simp add: s_i1_def s_i2_def ex_ab ioq_eval gets_eval con_eval fun_eq_iff)

lemma run_i3: "ioq_puts 3 [PDict [(''x'', PInt 1)]] s_i2 = (s_i3, Inr [1])"
  by (simp add: s_i2_def s_i3_def ex_ab ioq_eval puts_eval con_eval fun_eq_iff)

lemma run_i4: "snd (size_ready 4 s_i3) = Inr 1"
  by (simp add: s_i3_def ex_ab ioq_eval gets_eval con_eval)

lemma run_j3: "ioq_gets 3 None s_i2 = (s_j3, Inr (Some ([2], [[(''x'', PInt 2)]])))"
  by (simp add: s_i2_def s_j3_def ex_ab ioq_eval gets_eval con_eval fun_eq_iff)

lemma run_j4: "ioq_puts 4 [PDict [(''x'', PInt 2)]] s_j3 = (s_j4, Inr [1])"
  by (simp add: s_j3_def s_j4_def ex_ab ioq_eval puts_eval con_eval fun_eq_iff)

lemma run_j5: "snd (size_ready 1000 s_j4) = Inr 1"
  by (simp add: s_j4_def ex_ab ioq_eval gets_eval con_eval)

lemma run_j6: "snd (ioq_gets 1000 None s_j4) = Inr (Some ([2], [[(''x'', PInt 2)]]))"
  by (simp add: s_j4_def ex_ab ioq_eval gets_eval con_eval)

lemma wired_i3: "wired s_i3 q_x (t_x 2 0) (t_out 3 1)"
  by (simp add: wired_def s_i3_def ex_ab truthy_def table_names_def reserved_def)

lemma swept_i3: "swept 1000 q_x (t_x 2 0) = t_x 1 0"
  by (simp add: swept_def ex_ab con_eval)

lemma unjoined_i3:
  "unjoined (fst s_i3) (t_x 1 0) (t_out 3 1)
     = [\<lparr>rid = 2, rtimestamp = 1, rstatus = 0, rvals = [PInt 2]\<rparr>]"
  by (simp add: unjoined_def s_i3_def ex_ab joined_def cell_def AckStatus_defs)


text \<open>
  C1, as amended. The setting: an \<^verbatim>\<open>IOQueues\<close> with an input and an output table under
  different plain names, both tables sound, with distinct keys in the input table; the
  id column is a column of its table on either side, and the two id columns are
  declared with the same type, so that SQLite compares their values as they are
  stored; the batch size is below \<open>2\<^sup>6\<^sup>3\<close>.

  \<^verbatim>\<open>size_ready\<close> returns the number of input rows that, after the sweep of the input
  queue, have a status below \<open>unack\<close> and no partner in the output table; it returns 0
  exactly when every such row has a partner. \<^verbatim>\<open>gets\<close> returns the keys of the first
  \<open>batch_size\<close> of these rows with their records, whenever the lists of the records
  can be rebuilt; and no key it returns is the key of a row with a partner, whatever
  the status of that row.
\<close>

theorem ioq_join_amended:
  assumes w: "wired (io, d) qi ti tout" and dr: "distinct (map rid (trows ti))"
    and pi: "plain_name (the (input_q_name io))" and po: "plain_name (the (output_q_name io))"
    and sti: "sound_table ti" and sto: "sound_table tout"
    and ty: "col_type ti (input_q_id_column io) = col_type tout (output_q_id_column io)"
    and lim: "(case bs of None \<Rightarrow> batch_size io | Some b \<Rightarrow> b) < 2 ^ 63"
  shows
   "snd (size_ready now (io, d)) = Inr (length (unjoined io (swept now qi ti) tout)) \<and>
    ((snd (size_ready now (io, d)) = Inr 0) =
       (\<forall>r \<in> set (trows (swept now qi ti)). rstatus r < unack \<longrightarrow>
          joined (swept now qi ti) (input_q_id_column io) tout (output_q_id_column io) r)) \<and>
    (\<forall>items. unflatten_array_columns
                (row_dicts (swept now qi ti)
                   (take (case bs of None \<Rightarrow> batch_size io | Some b \<Rightarrow> b)
                      (unjoined io (swept now qi ti) tout))) = Inr items \<longrightarrow>
        snd (ioq_gets now bs (io, d)) =
          Inr (Some (map rid (take (case bs of None \<Rightarrow> batch_size io | Some b \<Rightarrow> b)
                                (unjoined io (swept now qi ti) tout)), items))) \<and>
    (\<forall>keys items. snd (ioq_gets now bs (io, d)) = Inr (Some (keys, items)) \<longrightarrow>
        (\<forall>r \<in> set (trows (swept now qi ti)).
           joined (swept now qi ti) (input_q_id_column io) tout (output_q_id_column io) r
             \<longrightarrow> rid r \<notin> set keys))"
proof (intro conjI allI impI ballI)
  show sz: "snd (size_ready now (io, d)) = Inr (length (unjoined io (swept now qi ti) tout))"
    using size_ready_wired[OF w] .
  show "(snd (size_ready now (io, d)) = Inr 0) =
       (\<forall>r \<in> set (trows (swept now qi ti)). rstatus r < unack \<longrightarrow>
          joined (swept now qi ti) (input_q_id_column io) tout (output_q_id_column io) r)"
    using unjoined_empty[of io "swept now qi ti" tout] by (simp add: sz)
next
  fix items
  assume "unflatten_array_columns
                (row_dicts (swept now qi ti)
                   (take (case bs of None \<Rightarrow> batch_size io | Some b \<Rightarrow> b)
                      (unjoined io (swept now qi ti) tout))) = Inr items"
  then show "snd (ioq_gets now bs (io, d)) =
          Inr (Some (map rid (take (case bs of None \<Rightarrow> batch_size io | Some b \<Rightarrow> b)
                                (unjoined io (swept now qi ti) tout)), items))"
    by (rule ioq_gets_ok[OF w dr])
next
  fix keys items r
  assume g: "snd (ioq_gets now bs (io, d)) = Inr (Some (keys, items))"
    and r: "r \<in> set (trows (swept now qi ti))"
    and j: "joined (swept now qi ti) (input_q_id_column io) tout (output_q_id_column io) r"
  have d': "distinct (map rid (trows (swept now qi ti)))"
    using dr by (simp add: swept_def distinct_con)
  show "rid r \<notin> set keys"
    unfolding ioq_gets_wired[OF w g] by (rule joined_not_taken[OF d' r j])
qed

theorem ioq_join_amended_witness:
  "wired s_i3 q_x (t_x 2 0) (t_out 3 1) \<and> distinct (map rid (trows (t_x 2 0))) \<and>
   plain_name ''a'' \<and> plain_name ''b'' \<and> sound_table (t_x 2 0) \<and> sound_table (t_out 3 1) \<and>
   col_type (t_x 2 0) ''_id'' = col_type (t_out 3 1) ''_id'' \<and>
   snd (size_ready 1000 s_i3) = Inr 1 \<and>
   snd (ioq_gets 1000 None s_i3) = Inr (Some ([2], [[(''x'', PInt 2)]])) \<and>
   joined (swept 1000 q_x (t_x 2 0)) ''_id'' (t_out 3 1) ''_id''
     \<lparr>rid = 1, rtimestamp = 1, rstatus = ready, rvals = [PInt 1]\<rparr>"
proof -
  have w: "wired (fst s_i3, snd s_i3) q_x (t_x 2 0) (t_out 3 1)" using wired_i3 by simp
  have dr: "distinct (map rid (trows (t_x 2 0)))" by (simp add: t_x_def)
  have pa: "plain_name ''a''" and pb: "plain_name ''b''"
    by (simp_all add: plain_name_def sql_keywords_def)
  have pi: "plain_name (the (input_q_name (fst s_i3)))"
    and po: "plain_name (the (output_q_name (fst s_i3)))"
    using pa pb by (simp_all add: s_i3_def io_ab_def)
  have sti: "sound_table (t_x 2 0)" and sto: "sound_table (t_out 3 1)"
    by (simp_all add: sound_table_def t_x_def t_out_def plain_name_def sql_keywords_def
          reserved_def)
  have ct: "col_type (t_x 2 0) ''_id'' = col_type (t_out 3 1) ''_id''"
    by (simp add: col_type_def)
  have ty: "col_type (t_x 2 0) (input_q_id_column (fst s_i3))
              = col_type (t_out 3 1) (output_q_id_column (fst s_i3))"
    by (simp add: col_type_def s_i3_def io_ab_def)
  have lim: "(case None of None \<Rightarrow> batch_size (fst s_i3) | Some b \<Rightarrow> b) < 2 ^ 63"
    by (simp add: s_i3_def io_ab_def)
  have uf: "unflatten_array_columns
     (row_dicts (swept 1000 q_x (t_x 2 0))
        (take (case None of None \<Rightarrow> batch_size (fst s_i3) | Some b \<Rightarrow> b)
           (unjoined (fst s_i3) (swept 1000 q_x (t_x 2 0)) (t_out 3 1))))
     = Inr [[(''x'', PInt 2)]]"
    unfolding swept_i3 unjoined_i3
    by (simp add: row_dicts_def s_i3_def ex_ab unflatten_item_def)
  note T = ioq_join_amended[OF w dr pi po sti sto ty lim, of 1000]
  have t1: "snd (size_ready 1000 s_i3) = Inr 1"
    using T[THEN conjunct1] unfolding swept_i3 unjoined_i3 by simp
  have t3: "snd (ioq_gets 1000 None s_i3) = Inr (Some ([2], [[(''x'', PInt 2)]]))"
    using T[THEN conjunct2, THEN conjunct2, THEN conjunct1, THEN spec, THEN mp, OF uf]
    unfolding swept_i3 unjoined_i3 by (simp add: s_i3_def io_ab_def)
  have j: "joined (swept 1000 q_x (t_x 2 0)) ''_id'' (t_out 3 1) ''_id''
     \<lparr>rid = 1, rtimestamp = 1, rstatus = ready, rvals = [PInt 1]\<rparr>"
    unfolding swept_i3 by (simp add: joined_def ex_ab cell_def)
  show ?thesis by (intro conjI wired_i3 dr pa pb sti sto ct t1 t3 j)
qed

text \<open>
  C1 as stated fails in its last part. Two records are loaded and the batch size is 1.
  After the first batch has been consumed and written to the output, \<^verbatim>\<open>size_ready\<close>
  is 1, the second row being ready. And when a second worker consumes the second row
  and writes its record before the first worker writes anything, the output row gets
  the key 1 and becomes the partner of the first input row: after the timeout the
  second row is counted by \<^verbatim>\<open>size_ready\<close> and returned by \<^verbatim>\<open>gets\<close> again, although
  its record has been written.
\<close>

theorem ioq_join_counterexample:
  "ioq_init 0 (Some ''a'') (Some ''b'') None None 1 default_kwargs Map.empty = Inr s_i0 \<and>
   load 1 [PDict [(''x'', PInt 1)], PDict [(''x'', PInt 2)]] s_i0 = (s_i1, Inr [1, 2]) \<and>
   ioq_gets 2 None s_i1 = (s_i2, Inr (Some ([1], [[(''x'', PInt 1)]]))) \<and>
   ioq_puts 3 [PDict [(''x'', PInt 1)]] s_i2 = (s_i3, Inr [1]) \<and>
   snd (size_ready 4 s_i3) = Inr 1 \<and>
   ioq_gets 3 None s_i2 = (s_j3, Inr (Some ([2], [[(''x'', PInt 2)]]))) \<and>
   ioq_puts 4 [PDict [(''x'', PInt 2)]] s_j3 = (s_j4, Inr [1]) \<and>
   snd (size_ready 1000 s_j4) = Inr 1 \<and>
   snd (ioq_gets 1000 None s_j4) = Inr (Some ([2], [[(''x'', PInt 2)]]))"
  by (intro conjI run_i0 run_i1 run_i2 run_i3 run_i4 run_j3 run_j4 run_j5 run_j6)


section \<open>C3: the life of a task attempt\<close>

lemma run_t0:
  "link_stage 0 ''f'' f default_kwargs (Some ''a'') (Some ''b'') None None 1 default_kwargs empty_jq
     = Inr (jq_f f [] [] empty_table empty_table [] empty_table)"
  by (simp add: ex_jq ex_ab jq_eval ioq_eval con_eval fun_eq_iff)

lemma run_t1:
  "on_ioq ''f'' (load 1 [PDict [(''x'', PInt 1)], PDict [(''x'', PInt 2)]])
       (jq_f f [] [] empty_table empty_table [] empty_table)
     = (jq_f f [''x''] [] (t_x 0 0) empty_table [] empty_table, Inr [1, 2])"
  by (simp add: ex_jq ex_ab jq_eval ioq_eval puts_eval con_eval fun_eq_iff)

lemma run_t2:
  "on_tasks ''f'' (put 2 (PDict [(''task_index'', PInt 0)]))
       (jq_f f [''x''] [] (t_x 0 0) empty_table [] empty_table)
     = (jq_f f [''x''] [] (t_x 0 0) empty_table [''task_index''] (t_task 0), Inr 1)"
  by (simp add: ex_jq ex_ab jq_eval ioq_eval puts_eval con_eval fun_eq_iff)

lemma run_t3:
  "func 2 ''f'' 1 0 (jq_f fails [''x''] [] (t_x 0 0) empty_table [''task_index''] (t_task 0))
     = (jq_f fails [''x''] [] (t_x 2 0) empty_table [''task_index''] (t_task 5), Inl WorkerError)"
  by (simp add: ex_jq ex_ab jq_eval ioq_eval gets_eval aq_eval fun_eq_iff)

lemma run_t4:
  "task_row_status (jq_f fails [''x''] [] (t_x 2 0) empty_table [''task_index''] (t_task 5)) ''f'' 1
     = [acked]"
  by (simp add: ex_jq jq_eval AckStatus_defs)

lemma run_t5:
  "task_row_status (fst (on_tasks ''f'' (\<lambda>a. (con 1000000 a, Inr ()))
       (jq_f fails [''x''] [] (t_x 2 0) empty_table [''task_index''] (t_task 5)))) ''f'' 1
     = [acked]"
  by (simp add: ex_jq ex_ab jq_eval con_eval)

lemma run_t6:
  "func 2 ''f'' 1 0 (jq_f copies [''x''] [] (t_x 0 0) empty_table [''task_index''] (t_task 0))
     = (jq_f copies [''x''] [''x''] (t_x 2 0) (t_out 2 1) [''task_index''] (t_task 17), Inr ())"
  by (simp add: ex_jq ex_ab jq_eval ioq_eval gets_eval puts_eval aq_eval fun_eq_iff)


text \<open>
  C3, as amended. For a registered stage whose tasks queue does not delete on ack, and
  a task id that is a key of its tasks table (keys distinct): the wrapped function
  first marks the row \<open>acked\<close> (5), and only after the batch is pulled, the user
  function has returned and the rows are written does it mark the row \<open>ack_done\<close> (17).
  So after the call the row is \<open>ack_done\<close> if the call returned and \<open>acked\<close> if it
  raised; it raises whenever the user function does; and no timeout sweep of the
  tasks queue changes the row afterwards.
\<close>

theorem task_lifecycle_amended:
  assumes l: "map_of (links jq) name = Some l" and t: "tdb jq (tasks_table name) = Some t"
    and dr: "distinct (map rid (trows t))" and k: "task_id \<in> rid ` set (trows t)"
    and nd: "\<not> delete_on_ack (tasks l)"
  shows
   "task_row_status (fst (func now name task_id idx jq)) name task_id
      = [if snd (func now name task_id idx jq) = Inr () then ack_done else acked] \<and>
    ((\<forall>b. \<exists>e. inner_func l b idx = Inl e) \<longrightarrow>
        snd (func now name task_id idx jq) \<noteq> Inr () \<and>
        task_row_status (fst (func now name task_id idx jq)) name task_id = [acked]) \<and>
    (\<forall>now'. task_row_status
               (fst (on_tasks name (\<lambda>a. (con now' a, Inr ()))
                       (fst (func now name task_id idx jq)))) name task_id
             = task_row_status (fst (func now name task_id idx jq)) name task_id)"
proof -
  note F = func_outcome[OF l t dr k nd, where now = now and idx = idx]
  have nu: "unack \<notin> set (task_row_status (fst (func now name task_id idx jq)) name task_id)"
    unfolding F(1) by (simp add: AckStatus_defs)
  have c2: "snd (func now name task_id idx jq) \<noteq> Inr () \<and>
        task_row_status (fst (func now name task_id idx jq)) name task_id = [acked]"
    if "\<forall>b. \<exists>e. inner_func l b idx = Inl e"
    using F(2)[OF that] F(1) by simp
  show ?thesis using F(1) c2 sweep_keeps_status[OF nu] by blast
qed

theorem task_lifecycle_amended_witness:
  "map_of (links (jq_f fails [''x''] [] (t_x 0 0) empty_table [''task_index''] (t_task 0))) ''f''
     = Some \<lparr>ioqueues = io_ab [''x''] [], inner_func = fails,
              tasks = q_x\<lparr>columns := [''task_index'']\<rparr>\<rparr> \<and>
   tdb (jq_f fails [''x''] [] (t_x 0 0) empty_table [''task_index''] (t_task 0)) (tasks_table ''f'')
     = Some (t_task 0) \<and>
   distinct (map rid (trows (t_task 0))) \<and> 1 \<in> rid ` set (trows (t_task 0)) \<and>
   \<not> delete_on_ack (q_x\<lparr>columns := [''task_index'']\<rparr>) \<and>
   snd (func 2 ''f'' 1 0 (jq_f fails [''x''] [] (t_x 0 0) empty_table [''task_index''] (t_task 0)))
     \<noteq> Inr () \<and>
   task_row_status
     (fst (func 2 ''f'' 1 0 (jq_f fails [''x''] [] (t_x 0 0) empty_table [''task_index''] (t_task 0))))
     ''f'' 1 = [acked] \<and>
   task_row_status
     (fst (on_tasks ''f'' (\<lambda>a. (con 1000000 a, Inr ()))
        (fst (func 2 ''f'' 1 0
               (jq_f fails [''x''] [] (t_x 0 0) empty_table [''task_index''] (t_task 0))))))
     ''f'' 1 = [acked] \<and>
   task_row_status
     (fst (func 2 ''f'' 1 0 (jq_f copies [''x''] [] (t_x 0 0) empty_table [''task_index''] (t_task 0))))
     ''f'' 1 = [ack_done]"
proof -
  let ?jq = "jq_f fails [''x''] [] (t_x 0 0) empty_table [''task_index''] (t_task 0)"
  let ?l = "\<lparr>ioqueues = io_ab [''x''] [], inner_func = fails,
              tasks = q_x\<lparr>columns := [''task_index'']\<rparr>\<rparr>"
  have l: "map_of (links ?jq) ''f'' = Some ?l" by (simp add: jq_f_def)
  have t: "tdb ?jq (tasks_table ''f'') = Some (t_task 0)"
    by (simp add: jq_f_def tasks_table_def)
  have dr: "distinct (map rid (trows (t_task 0)))" by (simp add: t_task_def)
  have k: "1 \<in> rid ` set (trows (t_task 0))" by (simp add: t_task_def)
  have nd: "\<not> delete_on_ack (tasks ?l)" by (simp add: q_x_def)
  have nd': "\<not> delete_on_ack (q_x\<lparr>columns := [''task_index'']\<rparr>)" by (simp add: q_x_def)
  have r: "\<forall>b. \<exists>e. inner_func ?l b 0 = Inl e" by (simp add: fails_def)
  note T = task_lifecycle_amended[OF l t dr k nd, where now = 2 and idx = 0]
  note T2 = T[THEN conjunct2, THEN conjunct1, THEN mp, OF r]
  note T3 = T[THEN conjunct2, THEN conjunct2, THEN spec, of 1000000]
  have t3: "task_row_status (fst (on_tasks ''f'' (\<lambda>a. (con 1000000 a, Inr ()))
        (fst (func 2 ''f'' 1 0 ?jq)))) ''f'' 1 = [acked]"
    using T3 T2[THEN conjunct2] by simp
  let ?jc = "jq_f copies [''x''] [] (t_x 0 0) empty_table [''task_index''] (t_task 0)"
  let ?lc = "\<lparr>ioqueues = io_ab [''x''] [], inner_func = copies,
              tasks = q_x\<lparr>columns := [''task_index'']\<rparr>\<rparr>"
  have lc: "map_of (links ?jc) ''f'' = Some ?lc" by (simp add: jq_f_def)
  have tc: "tdb ?jc (tasks_table ''f'') = Some (t_task 0)"
    by (simp add: jq_f_def tasks_table_def)
  have ndc: "\<not> delete_on_ack (tasks ?lc)" by (simp add: q_x_def)
  note C = task_lifecycle_amended[OF lc tc dr k ndc, where now = 2 and idx = 0]
  have c1: "task_row_status (fst (func 2 ''f'' 1 0 ?jc)) ''f'' 1 = [ack_done]"
    using C[THEN conjunct1] by (simp add: run_t6)
  show ?thesis by (intro conjI l t dr k nd' T2[THEN conjunct1] T2[THEN conjunct2] t3 c1)
qed

text \<open>
  C3 as stated fails: with a user function that raises, the row of the attempt is left
  \<open>acked\<close>, not \<open>unack\<close>, and a sweep long after the timeout leaves it \<open>acked\<close>.
\<close>

theorem task_lifecycle_counterexample:
  "link_stage 0 ''f'' fails default_kwargs (Some ''a'') (Some ''b'') None None 1 default_kwargs
       empty_jq
     = Inr (jq_f fails [] [] empty_table empty_table [] empty_table) \<and>
   on_ioq ''f'' (load 1 [PDict [(''x'', PInt 1)], PDict [(''x'', PInt 2)]])
       (jq_f fails [] [] empty_table empty_table [] empty_table)
     = (jq_f fails [''x''] [] (t_x 0 0) empty_table [] empty_table, Inr [1, 2]) \<and>
   on_tasks ''f'' (put 2 (PDict [(''task_index'', PInt 0)]))
       (jq_f fails [''x''] [] (t_x 0 0) empty_table [] empty_table)
     = (jq_f fails [''x''] [] (t_x 0 0) empty_table [''task_index''] (t_task 0), Inr 1) \<and>
   func 2 ''f'' 1 0 (jq_f fails [''x''] [] (t_x 0 0) empty_table [''task_index''] (t_task 0))
     = (jq_f fails [''x''] [] (t_x 2 0) empty_table [''task_index''] (t_task 5), Inl WorkerError) \<and>
   task_row_status (jq_f fails [''x''] [] (t_x 2 0) empty_table [''task_index''] (t_task 5)) ''f'' 1
     = [acked] \<and>
   acked \<noteq> unack \<and>
   task_row_status (fst (on_tasks ''f'' (\<lambda>a. (con 1000000 a, Inr ()))
       (jq_f fails [''x''] [] (t_x 2 0) empty_table [''task_index''] (t_task 5)))) ''f'' 1
     = [acked]"
proof -
  have ne: "acked \<noteq> unack" by (simp add: AckStatus_defs)
  show ?thesis by (intro conjI run_t0 run_t1 run_t2 run_t3 run_t4 run_t5 ne)
qed


section \<open>C9: the driver's loop\<close>




















end
